theory Spec2Isabelle
  imports Main "HOL-Library.Word" "HOL-Library.Log_Nat"
begin

unbundle bit_operations_syntax

section \<open>Strings and the string built-ins the services call\<close>

text \<open>
  A JavaScript string is a sequence of UTF-16 code units. The model uses \<^typ>\<open>string\<close>, whose
  characters are the code units below 256 (ASCII and the Latin-1 supplement); on these the
  built-ins \<^verbatim>\<open>trim\<close>, \<^verbatim>\<open>toLowerCase\<close> and the regular-expression class \<^verbatim>\<open>\s\<close> are
  modelled exactly. Strings with code units from 256 on are outside the model.
\<close>

text \<open>The code units below 256 that \<^verbatim>\<open>trim\<close> and \<^verbatim>\<open>\s\<close> treat as white space: TAB (9), LF (10),
  VT (11), FF (12), CR (13), SPACE (32) and NO-BREAK SPACE (160).\<close>

definition isWhiteSpace :: "char \<Rightarrow> bool" where
  "isWhiteSpace c = ((of_char c :: nat) \<in> set [9, 10, 11, 12, 13, 32, 160])"

definition trim :: "string \<Rightarrow> string" where
  "trim s = rev (dropWhile isWhiteSpace (rev (dropWhile isWhiteSpace s)))"

text \<open>\<^verbatim>\<open>toLowerCase\<close>: below 256 the capital letters are A..Z and U+00C0..U+00DE without the
  multiplication sign U+00D7; each maps to the code unit 32 above it.\<close>

definition toLowerChar :: "char \<Rightarrow> char" where
  "toLowerChar c =
     (let n = (of_char c :: nat)
      in if (65 \<le> n \<and> n \<le> 90) \<or> (192 \<le> n \<and> n \<le> 222 \<and> n \<noteq> 215) then char_of (n + 32) else c)"

definition toLowerCase :: "string \<Rightarrow> string" where
  "toLowerCase s = map toLowerChar s"

text \<open>\<^verbatim>\<open>s.padStart(n, '0')\<close> with a one-character filler.\<close>

definition padStart :: "nat \<Rightarrow> char \<Rightarrow> string \<Rightarrow> string" where
  "padStart n c s = replicate (n - length s) c @ s"

text \<open>\<^verbatim>\<open>Number.prototype.toString(radix)\<close> on a non-negative integer, for a radix from 2 to 16:
  digits 0..9 then a..f, no leading zero.\<close>

definition digitChar :: "nat \<Rightarrow> char" where
  "digitChar d = (if d < 10 then char_of (48 + d) else char_of (87 + d))"

function natToString :: "nat \<Rightarrow> nat \<Rightarrow> string" where
  "natToString radix n =
     (if radix < 2 \<or> n < radix then [digitChar n]
      else natToString radix (n div radix) @ [digitChar (n mod radix)])"
  by pat_completeness auto
termination
  by (relation "measure (\<lambda>(radix, n). n)") auto

declare natToString.simps [simp del]

text \<open>\<^verbatim>\<open>String(n)\<close> on an integer-valued number.\<close>

definition intToString :: "int \<Rightarrow> string" where
  "intToString i = (if i < 0 then CHR ''-'' # natToString 10 (nat (- i)) else natToString 10 (nat i))"

section \<open>The host digest primitive: SHA-256\<close>

text \<open>
  \<^verbatim>\<open>crypto.subtle.digest('SHA-256', data)\<close> belongs to the browser, not to the repository. It is
  modelled after FIPS 180-4 on 32-bit words, so that the digests the repository's tests expect can
  be recomputed. The round constants and the initial hash value are written in decimal.
\<close>

type_synonym byte = "8 word"
type_synonym w32 = "32 word"

definition rotr :: "nat \<Rightarrow> w32 \<Rightarrow> w32" where
  "rotr n x = (drop_bit n x) OR (push_bit (32 - n) x)"

definition ch :: "w32 \<Rightarrow> w32 \<Rightarrow> w32 \<Rightarrow> w32" where
  "ch x y z = (x AND y) XOR (NOT x AND z)"

definition maj :: "w32 \<Rightarrow> w32 \<Rightarrow> w32 \<Rightarrow> w32" where
  "maj x y z = (x AND y) XOR (x AND z) XOR (y AND z)"

definition bsig0 :: "w32 \<Rightarrow> w32" where
  "bsig0 x = rotr 2 x XOR rotr 13 x XOR rotr 22 x"

definition bsig1 :: "w32 \<Rightarrow> w32" where
  "bsig1 x = rotr 6 x XOR rotr 11 x XOR rotr 25 x"

definition ssig0 :: "w32 \<Rightarrow> w32" where
  "ssig0 x = rotr 7 x XOR rotr 18 x XOR drop_bit 3 x"

definition ssig1 :: "w32 \<Rightarrow> w32" where
  "ssig1 x = rotr 17 x XOR rotr 19 x XOR drop_bit 10 x"

definition sha256_k :: "w32 list" where
  "sha256_k = [
    1116352408, 1899447441, 3049323471, 3921009573, 961987163, 1508970993, 2453635748, 2870763221,
    3624381080, 310598401, 607225278, 1426881987, 1925078388, 2162078206, 2614888103, 3248222580,
    3835390401, 4022224774, 264347078, 604807628, 770255983, 1249150122, 1555081692, 1996064986,
    2554220882, 2821834349, 2952996808, 3210313671, 3336571891, 3584528711, 113926993, 338241895,
    666307205, 773529912, 1294757372, 1396182291, 1695183700, 1986661051, 2177026350, 2456956037,
    2730485921, 2820302411, 3259730800, 3345764771, 3516065817, 3600352804, 4094571909, 275423344,
    430227734, 506948616, 659060556, 883997877, 958139571, 1322822218, 1537002063, 1747873779,
    1955562222, 2024104815, 2227730452, 2361852424, 2428436474, 2756734187, 3204031479, 3329325298]"

definition sha256_h0 :: "w32 list" where
  "sha256_h0 = [1779033703, 3144134277, 1013904242, 2773480762,
                1359893119, 2600822924, 528734635, 1541459225]"

definition be32 :: "byte list \<Rightarrow> w32" where
  "be32 bs = foldl (\<lambda>acc b. push_bit 8 acc OR ucast b) 0 bs"

definition bytes_of_w32 :: "w32 \<Rightarrow> byte list" where
  "bytes_of_w32 w = [ucast (drop_bit 24 w), ucast (drop_bit 16 w), ucast (drop_bit 8 w), ucast w]"

definition bytes_of_len :: "nat \<Rightarrow> byte list" where
  "bytes_of_len n =
     (let w = (word_of_nat n :: 64 word) in map (\<lambda>i. ucast (drop_bit (8 * (7 - i)) w)) [0..<8])"

definition sha256_pad :: "byte list \<Rightarrow> byte list" where
  "sha256_pad m = m @ [0x80] @ replicate ((64 - (length m + 9) mod 64) mod 64) 0
                    @ bytes_of_len (8 * length m)"

fun chunks :: "nat \<Rightarrow> 'a list \<Rightarrow> 'a list list" where
  "chunks n xs = (if n = 0 \<or> xs = [] then [] else take n xs # chunks n (drop n xs))"

declare chunks.simps [simp del]

fun schedule :: "nat \<Rightarrow> w32 list \<Rightarrow> w32 list" where
  "schedule 0 w = w"
| "schedule (Suc n) w =
     (let i = length w in
      schedule n (w @ [ssig1 (w ! (i - 2)) + w ! (i - 7) + ssig0 (w ! (i - 15)) + w ! (i - 16)]))"

fun round_step :: "w32 list \<Rightarrow> w32 \<times> w32 \<Rightarrow> w32 list" where
  "round_step [a, b, c, d, e, f, g, h] (k, w) =
     (let t1 = h + bsig1 e + ch e f g + k + w;
          t2 = bsig0 a + maj a b c
      in [t1 + t2, a, b, c, d + t1, e, f, g])"
| "round_step v _ = v"

definition compress :: "w32 list \<Rightarrow> byte list \<Rightarrow> w32 list" where
  "compress hs block =
     (let w = schedule 48 (map be32 (chunks 4 block));
          v = foldl round_step hs (zip sha256_k w)
      in map2 (+) hs v)"

definition sha256 :: "byte list \<Rightarrow> byte list" where
  "sha256 m = concat (map bytes_of_w32 (foldl compress sha256_h0 (chunks 64 (sha256_pad m))))"

section \<open>encryptionService.ts\<close>

text \<open>What a \<^verbatim>\<open>throw\<close> or a rejected promise carries: an \<^verbatim>\<open>Error\<close> object with its message, or
  any other value.\<close>

datatype thrown = ErrorObject string | OtherValue

text \<open>\<^verbatim>\<open>new TextEncoder().encode(s)\<close>: the UTF-8 encoding; a code unit below 128 is one byte, one
  from 128 to 255 is two bytes.\<close>

definition utf8Char :: "char \<Rightarrow> byte list" where
  "utf8Char c =
     (let n = (of_char c :: nat)
      in if n < 128 then [word_of_nat n]
         else [word_of_nat (192 + n div 64), word_of_nat (128 + n mod 64)])"

definition utf8Encode :: "string \<Rightarrow> byte list" where
  "utf8Encode s = concat (map utf8Char s)"

text \<open>\<^verbatim>\<open>hashArray.map((b) => b.toString(16).padStart(2, '0')).join('')\<close>\<close>

definition hashHex :: "byte list \<Rightarrow> string" where
  "hashHex hashArray = concat (map (\<lambda>b. padStart 2 (CHR ''0'') (natToString 16 (unat b))) hashArray)"

text \<open>\<^verbatim>\<open>hashValue\<close>, with the host's \<^verbatim>\<open>crypto.subtle.digest('SHA-256', \<cdot>)\<close> as the parameter
  \<open>digest\<close>: it returns the hash buffer or rejects. \<open>Inr None\<close> is the \<^verbatim>\<open>null\<close> result.\<close>

definition hashValue :: "(byte list \<Rightarrow> thrown + byte list) \<Rightarrow> string \<Rightarrow> thrown + string option" where
  "hashValue digest v =
     (let normalized = toLowerCase (trim v)
      in if normalized = '''' then Inr None
         else (case digest (utf8Encode normalized) of
                 Inl e \<Rightarrow> Inl e
               | Inr hashBuffer \<Rightarrow> Inr (Some (hashHex hashBuffer))))"

text \<open>A browser that provides Web Crypto: the digest is SHA-256 and never rejects.\<close>

definition webCrypto :: "byte list \<Rightarrow> thrown + byte list" where
  "webCrypto data = Inr (sha256 data)"

text \<open>Two strings that differ at most in the case of their letters, position by position. The
  capital of a small letter a..z or U+00E0..U+00FE (without the division sign U+00F7) is the code
  unit 32 below it.\<close>

definition capitalOf :: "char \<Rightarrow> char" where
  "capitalOf c =
     (let n = (of_char c :: nat)
      in if (97 \<le> n \<and> n \<le> 122) \<or> (224 \<le> n \<and> n \<le> 254 \<and> n \<noteq> 247) then char_of (n - 32) else c)"

definition caseVariant :: "char \<Rightarrow> char \<Rightarrow> bool" where
  "caseVariant c d = (c = d \<or> d = capitalOf c \<or> c = capitalOf d)"

text \<open>The value of a hexadecimal digit 0..9, a..f.\<close>

definition hexValue :: "char \<Rightarrow> nat" where
  "hexValue c = (let n = (of_char c :: nat) in if 48 \<le> n \<and> n \<le> 57 then n - 48 else n - 87)"

section \<open>columnMatcher.ts\<close>

text \<open>\<^verbatim>\<open>name.toLowerCase().replace(/[\s_-]+/g, '').trim()\<close>: the global replace deletes every run
  of white space, underscores and dashes, that is, every such character.\<close>

definition isSeparator :: "char \<Rightarrow> bool" where
  "isSeparator c = (isWhiteSpace c \<or> c = CHR ''_'' \<or> c = CHR ''-'')"

definition normalizeColumnName :: "string \<Rightarrow> string" where
  "normalizeColumnName name = trim (filter (\<lambda>c. \<not> isSeparator c) (toLowerCase name))"

datatype TargetColumnType = FirstName | LastName | Mobile | Email | Phone

text \<open>The own properties of the object literal \<^verbatim>\<open>targetPatterns\<close>, in source order.\<close>

definition targetPatterns :: "(string \<times> TargetColumnType) list" where
  "targetPatterns =
     [(''firstname'', FirstName), (''fname'', FirstName),
      (''lastname'', LastName), (''lname'', LastName),
      (''email'', Email), (''emailaddress'', Email), (''e-mail'', Email),
      (''mobile'', Mobile), (''mobilenumber'', Mobile),
      (''phone'', Phone), (''phonenumber'', Phone)]"

text \<open>
  \<^verbatim>\<open>targetPatterns[normalized]\<close> is a property read on an object literal. An object literal
  inherits from \<^verbatim>\<open>Object.prototype\<close>, so the read finds the own properties first and then the
  members of \<^verbatim>\<open>Object.prototype\<close>; each of those is a function or an object, never
  \<^verbatim>\<open>undefined\<close>. \<open>None\<close> is \<^verbatim>\<open>undefined\<close>.
\<close>

definition objectPrototypeMembers :: "string list" where
  "objectPrototypeMembers =
     [''constructor'', ''hasOwnProperty'', ''isPrototypeOf'', ''propertyIsEnumerable'',
      ''toLocaleString'', ''toString'', ''valueOf'', ''__proto__'',
      ''__defineGetter__'', ''__defineSetter__'', ''__lookupGetter__'', ''__lookupSetter__'']"

datatype PropertyValue = TargetType TargetColumnType | Inherited string

definition getTargetPattern :: "string \<Rightarrow> PropertyValue option" where
  "getTargetPattern key =
     (case map_of targetPatterns key of
        Some t \<Rightarrow> Some (TargetType t)
      | None \<Rightarrow> if key \<in> set objectPrototypeMembers then Some (Inherited key) else None)"

record ColumnMapping =
  originalName :: string
  normalizedName :: string
  isTarget :: bool
  targetType :: "PropertyValue option"
  columnIndex :: nat

definition findTargetColumns :: "string list \<Rightarrow> ColumnMapping list" where
  "findTargetColumns headers =
     map (\<lambda>(index, header).
            let normalized = normalizeColumnName header;
                tt = getTargetPattern normalized
            in \<lparr> originalName = header, normalizedName = normalized,
                 isTarget = (tt \<noteq> None), targetType = tt, columnIndex = index \<rparr>)
         (enumerate 0 headers)"

definition hasTargetColumns :: "string list \<Rightarrow> bool" where
  "hasTargetColumns headers = list_ex isTarget (findTargetColumns headers)"

text \<open>The alias strings the documentation of \<^verbatim>\<open>findTargetColumns\<close> lists for the five target
  column types.\<close>

definition aliasNames :: "string list" where
  "aliasNames = [''firstname'', ''fname'', ''lastname'', ''lname'', ''email'', ''emailaddress'',
                 ''e-mail'', ''mobile'', ''mobilenumber'', ''phone'', ''phonenumber'']"

section \<open>file.types.ts and fileParser.ts\<close>

text \<open>\<^verbatim>\<open>CellValue = string | number | boolean | null | undefined\<close>. A number cell is modelled by
  its integer value, of magnitude below \<open>10\<^sup>2\<^sup>1\<close>, where \<^verbatim>\<open>String\<close> prints the plain decimal digits;
  numbers with a fractional part, and larger ones, are outside the model.\<close>

datatype CellValue = Undefined | Null | Str string | Num int | Bool bool

text \<open>
  Row arrays are objects: the table holds references to them, and a write through one reference
  is seen through every other. The store maps a row's address to its cells; \<open>rows\<close> is the outer
  array, the list of the row addresses in order.
\<close>

type_synonym addr = nat
type_synonym store = "addr \<Rightarrow> CellValue list"

record ParsedData =
  headers :: "string list"
  rows :: "addr list"
  sheetName :: "string option"
  rowCount :: nat
  columnCount :: nat

record File =
  fileName :: string
  mimeType :: string

datatype FileType = Excel | Csv | Unknown

definition endsWith :: "string \<Rightarrow> string \<Rightarrow> bool" where
  "endsWith s suf = (length suf \<le> length s \<and> drop (length s - length suf) s = suf)"

definition detectFileType :: "File \<Rightarrow> FileType" where
  "detectFileType f =
     (let mt = toLowerCase (mimeType f); fname = toLowerCase (fileName f)
      in if mt = ''application/vnd.openxmlformats-officedocument.spreadsheetml.sheet''
            \<or> mt = ''application/vnd.ms-excel'' then Excel
         else if mt = ''text/csv'' then Csv
         else if endsWith fname ''.xlsx'' \<or> endsWith fname ''.xls'' then Excel
         else if endsWith fname ''.csv'' then Csv
         else Unknown)"

section \<open>fileGenerator.ts\<close>

text \<open>The local calendar fields of a \<^verbatim>\<open>Date\<close>: \<^verbatim>\<open>getFullYear()\<close>, \<^verbatim>\<open>getMonth()\<close> (from 0) and
  \<^verbatim>\<open>getDate()\<close>.\<close>

record Date =
  getFullYear :: int
  getMonth :: nat
  getDate :: nat

fun lastIndexOf :: "string \<Rightarrow> char \<Rightarrow> int" where
  "lastIndexOf [] c = - 1"
| "lastIndexOf (x # xs) c =
     (let r = lastIndexOf xs c in if r \<noteq> - 1 then r + 1 else if x = c then 0 else - 1)"

definition formatDate :: "Date \<Rightarrow> string" where
  "formatDate now =
     (let year = getFullYear now;
          month = padStart 2 (CHR ''0'') (natToString 10 (getMonth now + 1));
          day = padStart 2 (CHR ''0'') (natToString 10 (getDate now))
      in intToString year @ ''-'' @ month @ ''-'' @ day)"

definition generateDownloadFilename :: "string \<Rightarrow> Date \<Rightarrow> string" where
  "generateDownloadFilename originalFilename now =
     (let dateStr = formatDate now;
          lastDotIndex = lastIndexOf originalFilename (CHR ''.'');
          (name, extension) =
             (if lastDotIndex = - 1 then (originalFilename, [])
              else (take (nat lastDotIndex) originalFilename, drop (nat lastDotIndex) originalFilename))
      in name @ ''_'' @ dateStr @ ''_encrypted'' @ extension)"

text \<open>The fixed-width date \<^verbatim>\<open>YYYY-MM-DD\<close>, written digit by digit.\<close>

definition isoDate :: "Date \<Rightarrow> string" where
  "isoDate d =
     (let y = nat (getFullYear d); m = getMonth d + 1; dd = getDate d
      in [digitChar (y div 1000), digitChar (y div 100 mod 10), digitChar (y div 10 mod 10),
          digitChar (y mod 10), CHR ''-'', digitChar (m div 10), digitChar (m mod 10), CHR ''-'',
          digitChar (dd div 10), digitChar (dd mod 10)])"

record Blob =
  content :: "byte list"
  blobType :: string

text \<open>
  The libraries and the environment the application calls: the Web Crypto digest,
  \<^verbatim>\<open>XLSX.write\<close> on a one-sheet workbook (sheet name and array of arrays), \<^verbatim>\<open>Papa.unparse\<close>, the
  two readings of \<^verbatim>\<open>Date.now()\<close> and the \<^verbatim>\<open>new Date()\<close> of the file name. Each library call
  returns its result or throws.
\<close>

record Host =
  subtleDigest :: "byte list \<Rightarrow> thrown + byte list"
  xlsxWrite :: "string \<Rightarrow> CellValue list list \<Rightarrow> thrown + byte list"
  papaUnparse :: "CellValue list list \<Rightarrow> thrown + string"
  startTime :: int
  endTime :: int
  today :: Date

text \<open>\<^verbatim>\<open>[data.headers, ...data.rows]\<close>, read through the store.\<close>

definition sheetData :: "store \<Rightarrow> ParsedData \<Rightarrow> CellValue list list" where
  "sheetData st d = map Str (headers d) # map st (rows d)"

definition generateExcel :: "Host \<Rightarrow> store \<Rightarrow> ParsedData \<Rightarrow> thrown + Blob" where
  "generateExcel host st d =
     (let name = (case sheetName d of None \<Rightarrow> ''Sheet1'' | Some n \<Rightarrow> if n = [] then ''Sheet1'' else n)
      in case xlsxWrite host name (sheetData st d) of
           Inl e \<Rightarrow> Inl e
         | Inr wbout \<Rightarrow> Inr \<lparr> content = wbout,
               blobType = ''application/vnd.openxmlformats-officedocument.spreadsheetml.sheet'' \<rparr>)"

definition generateCSV :: "Host \<Rightarrow> store \<Rightarrow> ParsedData \<Rightarrow> thrown + Blob" where
  "generateCSV host st d =
     (case papaUnparse host (sheetData st d) of
        Inl e \<Rightarrow> Inl e
      | Inr csv \<Rightarrow> Inr \<lparr> content = utf8Encode csv, blobType = ''text/csv;charset=utf-8;'' \<rparr>)"

section \<open>Number arithmetic of the progress value\<close>

text \<open>
  \<^verbatim>\<open>Math.round((processedCells / totalCells) * 100)\<close> is computed on IEEE 754 binary64 numbers:
  the quotient is rounded to the nearest double (ties to even), so is the product with 100, and
  \<^verbatim>\<open>Math.round\<close> rounds to the nearest integer, ties upwards. A double is modelled by the rational
  it denotes; \<open>toDouble\<close> rounds a positive rational to 53 significant bits (the cell counts are
  far inside the range where neither overflow nor subnormal numbers occur).
\<close>

definition floorLog2 :: "rat \<Rightarrow> int" where
  "floorLog2 x =
     (let (a, b) = quotient_of x;
          d = int (floorlog 2 (nat a)) - int (floorlog 2 (nat b))
      in if 2 powi d \<le> x then d else d - 1)"

definition roundHalfEven :: "rat \<Rightarrow> int" where
  "roundHalfEven q =
     (let f = \<lfloor>q\<rfloor>; r = q - of_int f
      in if r < 1 / 2 then f else if 1 / 2 < r then f + 1 else if even f then f else f + 1)"

definition toDouble :: "rat \<Rightarrow> rat" where
  "toDouble x =
     (if x \<le> 0 then 0
      else let ulp = 2 powi (floorLog2 x - 52) in of_int (roundHalfEven (x / ulp)) * ulp)"

definition mathRound :: "rat \<Rightarrow> int" where
  "mathRound x = \<lfloor>x + 1 / 2\<rfloor>"

definition progressPercent :: "nat \<Rightarrow> nat \<Rightarrow> int" where
  "progressPercent processed totalCells =
     mathRound (toDouble (toDouble (of_nat processed / of_nat totalCells) * 100))"

section \<open>App.tsx: handleEncrypt\<close>

datatype AppStateType = IDLE | PARSING | READY | ENCRYPTING | COMPLETE | ERROR

record Stats =
  totalRows :: nat
  encryptedCells :: nat
  duration :: int

text \<open>
  The state the component holds (\<open>appState\<close> is the \<^verbatim>\<open>state\<close> variable, \<open>fileObj\<close> the \<^verbatim>\<open>file\<close> variable) and what the handler does
  to its surroundings: \<open>objects\<close> is the store of the row arrays, \<open>progressCalls\<close> the arguments of
  all \<^verbatim>\<open>setProgress\<close> calls so far, oldest first, and \<open>downloaded\<close> the \<^verbatim>\<open>downloadFile\<close> calls.
  \<^verbatim>\<open>downloadFile\<close> itself (an anchor element and an object URL) is taken to return normally.
\<close>

record App =
  appState :: AppStateType
  fileObj :: "File option"
  parsedData :: "ParsedData option"
  columnMappings :: "ColumnMapping list"
  errorMessage :: string
  stats :: Stats
  objects :: store
  progressCalls :: "int list"
  downloaded :: "(Blob \<times> string) list"

text \<open>What the loops of \<^verbatim>\<open>handleEncrypt\<close> change: the cells of the row arrays, the local counters
  \<^verbatim>\<open>encryptedCount\<close> and \<^verbatim>\<open>processedCells\<close>, and the \<^verbatim>\<open>setProgress\<close> calls made inside the loops.\<close>

record Run =
  cells :: store
  encryptedCount :: nat
  processedCells :: nat
  progressSeq :: "int list"

text \<open>\<^verbatim>\<open>String(cellValue)\<close>\<close>

definition cellToString :: "CellValue \<Rightarrow> string" where
  "cellToString v =
     (case v of Undefined \<Rightarrow> ''undefined'' | Null \<Rightarrow> ''null'' | Str s \<Rightarrow> s
      | Num n \<Rightarrow> intToString n | Bool b \<Rightarrow> if b then ''true'' else ''false'')"

text \<open>\<^verbatim>\<open>row[i]\<close> as a read: \<^verbatim>\<open>undefined\<close> beyond the end of the array.\<close>

definition readCell :: "CellValue list \<Rightarrow> nat \<Rightarrow> CellValue" where
  "readCell row i = (if i < length row then row ! i else Undefined)"

text \<open>The result of \<^verbatim>\<open>hashValue\<close>, \<^verbatim>\<open>string | null\<close>, as the cell value it is stored as.\<close>

definition hashToCell :: "string option \<Rightarrow> CellValue" where
  "hashToCell h = (case h of None \<Rightarrow> Null | Some d \<Rightarrow> Str d)"

text \<open>
  The body of \<^verbatim>\<open>for (const mapping of columnMappings)\<close> for the row array at address \<open>a\<close>.
  The write \<^verbatim>\<open>row[mapping.columnIndex] = hash\<close> happens only where the read was not
  \<^verbatim>\<open>undefined\<close>, hence inside the array. A rejected \<^verbatim>\<open>hashValue\<close> leaves the body with the state
  reached so far.
\<close>

definition encryptCell :: "Host \<Rightarrow> nat \<Rightarrow> addr \<Rightarrow> ColumnMapping \<Rightarrow> Run \<Rightarrow> (thrown \<times> Run) + Run" where
  "encryptCell host totalCells a mapping s =
     (if isTarget mapping then
        (let row = cells s a;
             cellValue = readCell row (columnIndex mapping)
         in case (if cellValue \<noteq> Undefined \<and> cellValue \<noteq> Null \<and> cellValue \<noteq> Str []
                  then (case hashValue (subtleDigest host) (cellToString cellValue) of
                          Inl e \<Rightarrow> Inl (e, s)
                        | Inr hash \<Rightarrow>
                            Inr (s\<lparr> cells := (cells s)(a := row[columnIndex mapping := hashToCell hash]),
                                    encryptedCount := encryptedCount s + 1 \<rparr>))
                  else Inr s) of
              Inl e \<Rightarrow> Inl e
            | Inr s1 \<Rightarrow>
                Inr (s1\<lparr> processedCells := processedCells s1 + 1,
                         progressSeq := progressSeq s1 @
                            [progressPercent (processedCells s1 + 1) totalCells] \<rparr>))
      else Inr s)"

fun encryptRow :: "Host \<Rightarrow> nat \<Rightarrow> addr \<Rightarrow> ColumnMapping list \<Rightarrow> Run \<Rightarrow> (thrown \<times> Run) + Run" where
  "encryptRow host totalCells a [] s = Inr s"
| "encryptRow host totalCells a (mapping # mappings) s =
     (case encryptCell host totalCells a mapping s of
        Inl e \<Rightarrow> Inl e
      | Inr s1 \<Rightarrow> encryptRow host totalCells a mappings s1)"

text \<open>\<^verbatim>\<open>for (let rowIdx = i; rowIdx < chunkEnd; rowIdx++)\<close>; \<^verbatim>\<open>if (!row) continue\<close> skips an index
  beyond the end of the array (a row array itself is never falsy).\<close>

function processChunk ::
  "Host \<Rightarrow> nat \<Rightarrow> addr list \<Rightarrow> ColumnMapping list \<Rightarrow> nat \<Rightarrow> nat \<Rightarrow> Run \<Rightarrow> (thrown \<times> Run) + Run" where
  "processChunk host totalCells encryptedRows mappings rowIdx chunkEnd s =
     (if rowIdx < chunkEnd then
        (if rowIdx < length encryptedRows then
           (case encryptRow host totalCells (encryptedRows ! rowIdx) mappings s of
              Inl e \<Rightarrow> Inl e
            | Inr s1 \<Rightarrow> processChunk host totalCells encryptedRows mappings (rowIdx + 1) chunkEnd s1)
         else processChunk host totalCells encryptedRows mappings (rowIdx + 1) chunkEnd s)
      else Inr s)"
  by pat_completeness auto
termination
  by (relation "measure (\<lambda>(host, totalCells, encryptedRows, mappings, rowIdx, chunkEnd, s). chunkEnd - rowIdx)")
     auto

declare processChunk.simps [simp del]

definition chunkSize :: nat where
  "chunkSize = 100"

text \<open>\<^verbatim>\<open>for (let i = 0; i < encryptedRows.length; i += chunkSize)\<close>. The \<^verbatim>\<open>await\<close> of the zero
  timeout at the end of each chunk hands control to the event loop and changes nothing here.\<close>

function processRows ::
  "Host \<Rightarrow> nat \<Rightarrow> addr list \<Rightarrow> ColumnMapping list \<Rightarrow> nat \<Rightarrow> Run \<Rightarrow> (thrown \<times> Run) + Run" where
  "processRows host totalCells encryptedRows mappings i s =
     (if i < length encryptedRows then
        (let chunkEnd = min (i + chunkSize) (length encryptedRows)
         in case processChunk host totalCells encryptedRows mappings i chunkEnd s of
              Inl e \<Rightarrow> Inl e
            | Inr s1 \<Rightarrow> processRows host totalCells encryptedRows mappings (i + chunkSize) s1)
      else Inr s)"
  by pat_completeness auto
termination
  by (relation "measure (\<lambda>(host, totalCells, encryptedRows, mappings, i, s). length encryptedRows - i)")
     (auto simp: chunkSize_def)

declare processRows.simps [simp del]

text \<open>The \<^verbatim>\<open>catch\<close> block.\<close>

definition catchError :: "thrown \<Rightarrow> App \<Rightarrow> App" where
  "catchError e app =
     app\<lparr> appState := ERROR,
          errorMessage := (case e of ErrorObject msg \<Rightarrow> msg | OtherValue \<Rightarrow> ''Encryption failed'') \<rparr>"

text \<open>
  \<^verbatim>\<open>handleEncrypt\<close>. \<^verbatim>\<open>[...parsedData.rows]\<close> makes a new outer array with the same row references
  as elements; neither outer array is written afterwards, so both are the one list \<open>rows pd\<close>.
  The state setters are applied in call order.
\<close>

definition handleEncrypt :: "Host \<Rightarrow> App \<Rightarrow> App" where
  "handleEncrypt host app =
     (case (parsedData app, fileObj app) of
        (Some pd, Some f) \<Rightarrow>
          (let app1 = app\<lparr> appState := ENCRYPTING, progressCalls := progressCalls app @ [0] \<rparr>;
               encryptedRows = rows pd;
               totalCells = length (rows pd) * length (filter isTarget (columnMappings app));
               s0 = \<lparr> cells = objects app1, encryptedCount = 0, processedCells = 0, progressSeq = [] \<rparr>
           in case processRows host totalCells encryptedRows (columnMappings app) 0 s0 of
                Inl (e, s) \<Rightarrow>
                  catchError e (app1\<lparr> objects := cells s,
                                       progressCalls := progressCalls app1 @ progressSeq s \<rparr>)
              | Inr s \<Rightarrow>
                  (let app2 = app1\<lparr> objects := cells s,
                                    progressCalls := progressCalls app1 @ progressSeq s \<rparr>;
                       encryptedData = pd\<lparr> rows := encryptedRows \<rparr>;
                       fileType = detectFileType f
                   in case (if fileType = Excel then generateExcel host (objects app2) encryptedData
                            else generateCSV host (objects app2) encryptedData) of
                        Inl e \<Rightarrow> catchError e app2
                      | Inr blob \<Rightarrow>
                          (let filename = generateDownloadFilename (fileName f) (today host)
                           in app2\<lparr> downloaded := downloaded app2 @ [(blob, filename)],
                                    stats := \<lparr> totalRows = length (rows pd),
                                               encryptedCells = encryptedCount s,
                                               duration = endTime host - startTime host \<rparr>,
                                    appState := COMPLETE,
                                    progressCalls := progressCalls app2 @ [100] \<rparr>)))
      | _ \<Rightarrow> app)"

section \<open>Notions used to state the properties\<close>

text \<open>A date whose year has four digits, with a month and a day of the calendar.\<close>

definition fourDigitDate :: "Date \<Rightarrow> bool" where
  "fourDigitDate d =
     (1000 \<le> getFullYear d \<and> getFullYear d \<le> 9999 \<and> getMonth d < 12 \<and> 1 \<le> getDate d \<and> getDate d \<le> 31)"

text \<open>The cells \<^verbatim>\<open>handleEncrypt\<close> passes over: \<^verbatim>\<open>undefined\<close>, \<^verbatim>\<open>null\<close> and the empty string.\<close>

definition isEmptyCell :: "CellValue \<Rightarrow> bool" where
  "isEmptyCell v = (v = Undefined \<or> v = Null \<or> v = Str [])"

text \<open>A string cell that is not empty and consists of white space only.\<close>

definition isBlankString :: "CellValue \<Rightarrow> bool" where
  "isBlankString v = (case v of Str s \<Rightarrow> s \<noteq> [] \<and> (\<forall>c\<in>set s. isWhiteSpace c) | _ \<Rightarrow> False)"

text \<open>The column indices of the target mappings.\<close>

definition targetIndices :: "ColumnMapping list \<Rightarrow> nat list" where
  "targetIndices mappings = map columnIndex (filter isTarget mappings)"

text \<open>The cell steps for a list of (row address, mapping) pairs, one after the other in list
  order, stopping at the first rejection.\<close>

fun runCells :: "Host \<Rightarrow> nat \<Rightarrow> (addr \<times> ColumnMapping) list \<Rightarrow> Run \<Rightarrow> (thrown \<times> Run) + Run" where
  "runCells host totalCells [] s = Inr s"
| "runCells host totalCells ((a, mapping) # rest) s =
     (case encryptCell host totalCells a mapping s of
        Inl e \<Rightarrow> Inl e
      | Inr s1 \<Rightarrow> runCells host totalCells rest s1)"

text \<open>The number \<^verbatim>\<open>totalCells\<close> that \<^verbatim>\<open>handleEncrypt\<close> computes, the values of its loop variables before
  the first row, the whole pass over the table in row-major order, and the generator call.\<close>

definition totalCellsOf :: "ParsedData \<Rightarrow> ColumnMapping list \<Rightarrow> nat" where
  "totalCellsOf pd mappings = length (rows pd) * length (filter isTarget mappings)"

definition runStart :: "App \<Rightarrow> Run" where
  "runStart app = \<lparr> cells = objects app, encryptedCount = 0, processedCells = 0, progressSeq = [] \<rparr>"

definition encryptionPass :: "Host \<Rightarrow> ParsedData \<Rightarrow> App \<Rightarrow> (thrown \<times> Run) + Run" where
  "encryptionPass host pd app =
     runCells host (totalCellsOf pd (columnMappings app))
       (List.product (rows pd) (columnMappings app)) (runStart app)"

definition generateBlob :: "Host \<Rightarrow> store \<Rightarrow> ParsedData \<Rightarrow> File \<Rightarrow> thrown + Blob" where
  "generateBlob host st pd f =
     (if detectFileType f = Excel then generateExcel host st pd else generateCSV host st pd)"

definition errorText :: "thrown \<Rightarrow> string" where
  "errorText e = (case e of ErrorObject msg \<Rightarrow> msg | OtherValue \<Rightarrow> ''Encryption failed'')"

text \<open>The cell at index \<open>i\<close> of the row array at address \<open>a\<close>.\<close>

definition cellAt :: "store \<Rightarrow> addr \<Rightarrow> nat \<Rightarrow> CellValue" where
  "cellAt st a i = readCell (st a) i"

text \<open>What a visit of a target cell leaves in the cell when \<^verbatim>\<open>hashValue\<close> does not reject.\<close>

definition encryptedValue :: "Host \<Rightarrow> CellValue \<Rightarrow> CellValue" where
  "encryptedValue host v =
     (if isEmptyCell v then v
      else (case hashValue (subtleDigest host) (cellToString v) of
              Inl e \<Rightarrow> v
            | Inr h \<Rightarrow> hashToCell h))"

text \<open>The cells (row address, column index) that the steps for a list of pairs visit.\<close>

definition targetCells :: "(addr \<times> ColumnMapping) list \<Rightarrow> (addr \<times> nat) list" where
  "targetCells L = map (\<lambda>(a, m). (a, columnIndex m)) (filter (isTarget \<circ> snd) L)"

text \<open>The state in which a pass ends, whether it ran to the end or was rejected.\<close>

definition passEnd :: "(thrown \<times> Run) + Run \<Rightarrow> Run" where
  "passEnd r = (case r of Inl (e, s) \<Rightarrow> s | Inr s \<Rightarrow> s)"

section \<open>A table of two rows, used for the concrete runs\<close>

definition demoHost :: Host where
  "demoHost = \<lparr> subtleDigest = webCrypto,
                 xlsxWrite = (\<lambda>name sheet. Inr []),
                 papaUnparse = (\<lambda>sheet. Inr []),
                 startTime = 0, endTime = 40,
                 today = \<lparr> getFullYear = 2025, getMonth = 9, getDate = 2 \<rparr> \<rparr>"

definition failingWriterHost :: Host where
  "failingWriterHost =
     demoHost\<lparr> xlsxWrite := (\<lambda>name sheet. Inl (ErrorObject ''write failed'')),
               papaUnparse := (\<lambda>sheet. Inl (ErrorObject ''unparse failed'')) \<rparr>"

definition demoData :: ParsedData where
  "demoData = \<lparr> headers = [''First Name'', ''Phone'', ''Dept''], rows = [0, 1],
                 sheetName = None, rowCount = 2, columnCount = 3 \<rparr>"

definition demoFile :: File where
  "demoFile = \<lparr> fileName = ''staff.csv'', mimeType = ''text/csv'' \<rparr>"

definition demoStore :: store where
  "demoStore = (\<lambda>a. [])(0 := [Str ''  JOHN  '', Num 42, Num 7], 1 := [Null, Bool True, Str ''ops''])"

definition demoApp :: App where
  "demoApp = \<lparr> appState = READY, fileObj = Some demoFile, parsedData = Some demoData,
                columnMappings = findTargetColumns (headers demoData),
                errorMessage = [], stats = \<lparr> totalRows = 0, encryptedCells = 0, duration = 0 \<rparr>,
                objects = demoStore, progressCalls = [], downloaded = [] \<rparr>"

text \<open>The host of the concrete runs at a later time.\<close>

definition laterHost :: Host where
  "laterHost = demoHost\<lparr> startTime := 1000, endTime := 1900,
                 today := \<lparr> getFullYear = 2026, getMonth = 0, getDate = 15 \<rparr> \<rparr>"

section \<open>Properties of the string built-ins\<close>

lemma isWhiteSpace_toLowerChar: "isWhiteSpace (toLowerChar c) = isWhiteSpace c"
  by (auto simp: isWhiteSpace_def toLowerChar_def Let_def)

lemma toLowerChar_capitalOf: "toLowerChar (capitalOf c) = toLowerChar c"
  by (auto simp: toLowerChar_def capitalOf_def Let_def)

lemma caseVariant_toLowerChar: "caseVariant c d \<Longrightarrow> toLowerChar c = toLowerChar d"
  by (auto simp: caseVariant_def toLowerChar_capitalOf)

lemma list_all2_caseVariant_toLowerCase:
  "list_all2 caseVariant s t \<Longrightarrow> toLowerCase s = toLowerCase t"
  unfolding toLowerCase_def
  by (induction rule: list_all2_induct) (simp_all add: caseVariant_toLowerChar)

lemma trim_toLowerCase: "trim (toLowerCase s) = toLowerCase (trim s)"
  by (simp add: trim_def toLowerCase_def dropWhile_map rev_map comp_def isWhiteSpace_toLowerChar)

lemma trim_append_ws:
  assumes "\<forall>c\<in>set ws1. isWhiteSpace c" "\<forall>c\<in>set ws2. isWhiteSpace c"
  shows "trim (ws1 @ s @ ws2) = trim s"
proof -
  have a: "dropWhile isWhiteSpace (ws1 @ s @ ws2) = dropWhile isWhiteSpace (s @ ws2)"
    using assms(1) by (simp add: dropWhile_append)
  show ?thesis
  proof (cases "\<forall>c\<in>set s. isWhiteSpace c")
    case True
    then have e1: "dropWhile isWhiteSpace (s @ ws2) = []" and e2: "dropWhile isWhiteSpace s = []"
      using assms(2) by auto
    show ?thesis unfolding trim_def a e1 e2 by simp
  next
    case False
    then obtain x where "x \<in> set s" "\<not> isWhiteSpace x" by blast
    then have e: "dropWhile isWhiteSpace (s @ ws2) = dropWhile isWhiteSpace s @ ws2"
      by (rule dropWhile_append1)
    have "dropWhile isWhiteSpace (rev ws2 @ rev (dropWhile isWhiteSpace s))
            = dropWhile isWhiteSpace (rev (dropWhile isWhiteSpace s))"
      using assms(2) by (intro dropWhile_append2) simp
    then show ?thesis unfolding trim_def a e by simp
  qed
qed

lemma trim_empty_iff: "trim s = [] \<longleftrightarrow> (\<forall>c\<in>set s. isWhiteSpace c)"
proof
  assume "trim s = []"
  then have all: "\<forall>x\<in>set (dropWhile isWhiteSpace s). isWhiteSpace x"
    by (simp add: trim_def)
  have "dropWhile isWhiteSpace s = []"
  proof (rule ccontr)
    assume ne: "dropWhile isWhiteSpace s \<noteq> []"
    then have "\<not> isWhiteSpace (hd (dropWhile isWhiteSpace s))" by (rule hd_dropWhile)
    moreover have "hd (dropWhile isWhiteSpace s) \<in> set (dropWhile isWhiteSpace s)"
      using ne by simp
    ultimately show False using all by blast
  qed
  then show "\<forall>c\<in>set s. isWhiteSpace c" by simp
next
  assume "\<forall>c\<in>set s. isWhiteSpace c"
  then have e: "dropWhile isWhiteSpace s = []" by simp
  show "trim s = []" unfolding trim_def e by simp
qed

lemma normalized_empty_iff: "toLowerCase (trim v) = [] \<longleftrightarrow> (\<forall>c\<in>set v. isWhiteSpace c)"
  by (simp add: toLowerCase_def trim_empty_iff)

lemma digitChar_hex: "n < 16 \<Longrightarrow> digitChar n \<in> set ''0123456789abcdef''"
proof -
  have "\<forall>n\<in>set [0..<16]. digitChar n \<in> set ''0123456789abcdef''" by code_simp
  moreover assume "n < 16"
  ultimately show ?thesis by simp
qed

lemma digitChar_0: "digitChar 0 = CHR ''0''"
  by code_simp

lemma hexValue_digitChar: "n < 16 \<Longrightarrow> hexValue (digitChar n) = n"
  by (auto simp: hexValue_def digitChar_def Let_def)

lemma natToString16_byte:
  "n < 256 \<Longrightarrow> natToString 16 n =
     (if n < 16 then [digitChar n] else [digitChar (n div 16), digitChar (n mod 16)])"
  apply (subst natToString.simps)
  apply auto
  apply (subst natToString.simps)
  apply auto
  done

lemma unat_byte_less: "unat (b :: byte) < 256"
  using unsigned_less [of b, where ?'a = nat] by simp

lemma hexByte:
  "padStart 2 (CHR ''0'') (natToString 16 (unat (b :: byte))) =
     [digitChar (unat b div 16), digitChar (unat b mod 16)]"
  using unat_byte_less [of b]
  by (auto simp: natToString16_byte padStart_def digitChar_0 [symmetric])

lemma hashHex_Nil: "hashHex [] = []"
  by (simp add: hashHex_def)

lemma hashHex_Cons:
  "hashHex (b # bs) = digitChar (unat b div 16) # digitChar (unat b mod 16) # hashHex bs"
  by (simp add: hashHex_def hexByte)

lemma length_hashHex: "length (hashHex bs) = 2 * length bs"
  by (induction bs) (simp_all add: hashHex_Nil hashHex_Cons)

lemma set_hashHex: "c \<in> set (hashHex bs) \<Longrightarrow> c \<in> set ''0123456789abcdef''"
proof (induction bs)
  case Nil
  then show ?case by (simp add: hashHex_Nil)
next
  case (Cons b bs)
  have lt: "unat b div 16 < 16" "unat b mod 16 < 16"
    using unat_byte_less [of b] by simp_all
  have d1: "digitChar (unat b div 16) \<in> set ''0123456789abcdef''"
    using lt(1) by (rule digitChar_hex)
  have d2: "digitChar (unat b mod 16) \<in> set ''0123456789abcdef''"
    using lt(2) by (rule digitChar_hex)
  from Cons.prems have "c = digitChar (unat b div 16) \<or> c = digitChar (unat b mod 16)
      \<or> c \<in> set (hashHex bs)"
    by (simp add: hashHex_Cons)
  with d1 d2 Cons.IH show ?case by blast
qed

lemma hashHex_nth:
  "i < length bs \<Longrightarrow>
     16 * hexValue (hashHex bs ! (2 * i)) + hexValue (hashHex bs ! (2 * i + 1)) = unat (bs ! i)"
proof (induction bs arbitrary: i)
  case Nil
  then show ?case by simp
next
  case (Cons b bs)
  have lt: "unat b div 16 < 16" "unat b mod 16 < 16"
    using unat_byte_less [of b] by simp_all
  show ?case
  proof (cases i)
    case 0
    then show ?thesis using lt by (simp add: hashHex_Cons hexValue_digitChar)
  next
    case (Suc j)
    then have "j < length bs" using Cons.prems by simp
    from Cons.IH [OF this] show ?thesis using Suc by (simp add: hashHex_Cons)
  qed
qed

section \<open>Properties of SHA-256 and hashValue\<close>

lemma length_round_step: "length (round_step v kw) = length v"
  by (induction v kw rule: round_step.induct) (simp_all add: Let_def)

lemma length_foldl_round_step: "length (foldl round_step v kws) = length v"
  by (induction kws arbitrary: v) (simp_all add: length_round_step)

lemma length_compress: "length (compress hs block) = length hs"
  by (simp add: compress_def Let_def length_foldl_round_step)

lemma length_foldl_compress: "length (foldl compress hs blocks) = length hs"
  by (induction blocks arbitrary: hs) (simp_all add: length_compress)

lemma length_concat_bytes: "length (concat (map bytes_of_w32 ws)) = 4 * length ws"
  by (induction ws) (simp_all add: bytes_of_w32_def)

lemma length_sha256: "length (sha256 m) = 32"
  by (simp add: sha256_def length_concat_bytes length_foldl_compress sha256_h0_def)

text \<open>The digest the repository's unit test expects for \<^verbatim>\<open>hashValue('test')\<close>.\<close>

lemma sha256_test_vector:
  "hashHex (sha256 (utf8Encode ''test'')) =
     ''9f86d081884c7d659a2feaa0c55ad015a3bf4f1b2b0b822cd15d6c15b0f00a08''"
  by code_simp

lemma hashValue_ws: "(\<forall>c\<in>set v. isWhiteSpace c) \<Longrightarrow> hashValue digest v = Inr None"
  by (simp add: hashValue_def normalized_empty_iff [symmetric])

lemma hashValue_None_iff: "hashValue digest v = Inr None \<longleftrightarrow> (\<forall>c\<in>set v. isWhiteSpace c)"
  by (auto simp: hashValue_def Let_def normalized_empty_iff split: sum.splits)

text \<open>
  Claim C2. \<^verbatim>\<open>hashValue\<close> does not depend on white space around its input nor on the case of
  the letters, and every string that is empty after trimming gives \<^verbatim>\<open>null\<close>:
  \<^verbatim>\<open>hashValue("JOHN") == hashValue("john") == hashValue("  John  ")\<close> and
  \<^verbatim>\<open>hashValue("") == hashValue("   ") == null\<close>. This holds for every digest primitive.
\<close>

theorem hashValue_normalization_invariant:
  "(\<forall>ws1 ws2 s. (\<forall>c\<in>set ws1. isWhiteSpace c) \<and> (\<forall>c\<in>set ws2. isWhiteSpace c)
        \<longrightarrow> hashValue digest (ws1 @ s @ ws2) = hashValue digest s)
   \<and> (\<forall>s t. list_all2 caseVariant s t \<longrightarrow> hashValue digest s = hashValue digest t)
   \<and> (\<forall>s. (\<forall>c\<in>set s. isWhiteSpace c) \<longrightarrow> hashValue digest s = Inr None)
   \<and> hashValue digest ''JOHN'' = hashValue digest ''john''
   \<and> hashValue digest ''john'' = hashValue digest ''  John  ''
   \<and> hashValue digest [] = Inr None
   \<and> hashValue digest ''   '' = Inr None"
proof (intro conjI allI impI)
  fix ws1 ws2 s
  assume "(\<forall>c\<in>set ws1. isWhiteSpace c) \<and> (\<forall>c\<in>set ws2. isWhiteSpace c)"
  then show "hashValue digest (ws1 @ s @ ws2) = hashValue digest s"
    by (simp add: hashValue_def trim_append_ws)
next
  fix s t
  assume "list_all2 caseVariant s t"
  then have "toLowerCase s = toLowerCase t" by (rule list_all2_caseVariant_toLowerCase)
  then have "toLowerCase (trim s) = toLowerCase (trim t)"
    by (simp add: trim_toLowerCase [symmetric])
  then show "hashValue digest s = hashValue digest t"
    by (simp add: hashValue_def)
next
  fix s
  assume "\<forall>c\<in>set s. isWhiteSpace c"
  then show "hashValue digest s = Inr None" by (rule hashValue_ws)
next
  have a: "toLowerCase (trim ''JOHN'') = ''john''" by code_simp
  have b: "toLowerCase (trim ''john'') = ''john''" by code_simp
  show "hashValue digest ''JOHN'' = hashValue digest ''john''"
    by (simp add: hashValue_def a b)
next
  have a: "toLowerCase (trim ''  John  '') = ''john''" by code_simp
  have b: "toLowerCase (trim ''john'') = ''john''" by code_simp
  show "hashValue digest ''john'' = hashValue digest ''  John  ''"
    by (simp add: hashValue_def a b)
next
  show "hashValue digest [] = Inr None" by (simp add: hashValue_ws)
next
  show "hashValue digest ''   '' = Inr None" by (simp add: hashValue_ws isWhiteSpace_def)
qed

theorem hashValue_normalization_invariant_witness:
  "hashValue webCrypto ([CHR 0x09, CHR '' ''] @ ''Ann'' @ [CHR 0x0A]) = hashValue webCrypto ''Ann''
   \<and> hashValue webCrypto ''aNN'' = hashValue webCrypto ''Ann''
   \<and> hashValue webCrypto [CHR 0x0D, CHR 0xA0] = Inr None"
proof -
  note inv = hashValue_normalization_invariant [of webCrypto]
  have ws: "\<forall>c\<in>set [CHR 0x09, CHR '' '']. isWhiteSpace c" "\<forall>c\<in>set [CHR 0x0A]. isWhiteSpace c"
    "\<forall>c\<in>set [CHR 0x0D, CHR 0xA0]. isWhiteSpace c"
    by (simp_all add: isWhiteSpace_def)
  have cv: "list_all2 caseVariant ''aNN'' ''Ann''"
    by code_simp
  from inv ws
  have "hashValue webCrypto ([CHR 0x09, CHR '' ''] @ ''Ann'' @ [CHR 0x0A]) = hashValue webCrypto ''Ann''"
    by blast
  moreover from inv cv have "hashValue webCrypto ''aNN'' = hashValue webCrypto ''Ann''" by blast
  moreover from inv ws have "hashValue webCrypto [CHR 0x0D, CHR 0xA0] = Inr None" by blast
  ultimately show ?thesis by blast
qed

text \<open>
  Claim C8. Where \<^verbatim>\<open>hashValue\<close> (on a browser with Web Crypto) does not return \<^verbatim>\<open>null\<close>, it
  returns the SHA-256 hash of the UTF-8 encoding of the trimmed, lower-cased input, written as
  exactly 64 characters from 0..9 and a..f, two per byte of the hash, high half first.
\<close>

theorem hashValue_sha256_hex:
  "hashValue webCrypto v \<noteq> Inr None \<Longrightarrow>
     (\<exists>d. hashValue webCrypto v = Inr (Some d)
        \<and> d = hashHex (sha256 (utf8Encode (toLowerCase (trim v))))
        \<and> length d = 64
        \<and> (\<forall>c\<in>set d. c \<in> set ''0123456789abcdef'')
        \<and> (\<forall>i<32. 16 * hexValue (d ! (2 * i)) + hexValue (d ! (2 * i + 1))
                        = unat (sha256 (utf8Encode (toLowerCase (trim v))) ! i)))"
proof -
  assume ne: "hashValue webCrypto v \<noteq> Inr None"
  let ?h = "sha256 (utf8Encode (toLowerCase (trim v)))"
  have val: "hashValue webCrypto v = Inr (Some (hashHex ?h))"
    using ne by (simp add: hashValue_def webCrypto_def Let_def split: if_splits)
  have len: "length (hashHex ?h) = 64"
    by (simp add: length_hashHex length_sha256)
  have alphabet: "\<forall>c\<in>set (hashHex ?h). c \<in> set ''0123456789abcdef''"
    using set_hashHex by blast
  have bytes: "\<forall>i<32. 16 * hexValue (hashHex ?h ! (2 * i)) + hexValue (hashHex ?h ! (2 * i + 1))
                  = unat (?h ! i)"
    using hashHex_nth [of _ ?h] by (simp add: length_sha256)
  from val len alphabet bytes show ?thesis by blast
qed

theorem hashValue_sha256_hex_witness:
  "hashValue webCrypto ''  TEST '' \<noteq> Inr None
   \<and> hashValue webCrypto ''  TEST '' =
        Inr (Some ''9f86d081884c7d659a2feaa0c55ad015a3bf4f1b2b0b822cd15d6c15b0f00a08'')"
proof -
  have n: "toLowerCase (trim ''  TEST '') = ''test''" by code_simp
  have ne: "hashValue webCrypto ''  TEST '' \<noteq> Inr None"
    by (simp add: hashValue_def webCrypto_def n)
  from hashValue_sha256_hex [OF ne] show ?thesis
    using ne by (auto simp: n sha256_test_vector)
qed

section \<open>Properties of generateDownloadFilename\<close>

lemma lastIndexOf_none: "c \<notin> set s \<Longrightarrow> lastIndexOf s c = - 1"
  by (induction s) (auto simp: Let_def)

lemma lastIndexOf_last:
  "c \<notin> set ext \<Longrightarrow> lastIndexOf (stem @ c # ext) c = int (length stem)"
  by (induction stem) (auto simp: Let_def lastIndexOf_none)

lemma natToString10_1: "n < 10 \<Longrightarrow> natToString 10 n = [digitChar n]"
  by (subst natToString.simps) simp

lemma natToString10_2:
  "10 \<le> n \<Longrightarrow> n < 100 \<Longrightarrow> natToString 10 n = [digitChar (n div 10), digitChar (n mod 10)]"
  by (subst natToString.simps) (simp add: natToString10_1)

lemma natToString10_3:
  "100 \<le> n \<Longrightarrow> n < 1000 \<Longrightarrow>
     natToString 10 n = [digitChar (n div 100), digitChar (n div 10 mod 10), digitChar (n mod 10)]"
  by (subst natToString.simps) (simp add: natToString10_2 div_mult2_eq [symmetric])

lemma natToString10_4:
  "1000 \<le> n \<Longrightarrow> n < 10000 \<Longrightarrow>
     natToString 10 n = [digitChar (n div 1000), digitChar (n div 100 mod 10),
                         digitChar (n div 10 mod 10), digitChar (n mod 10)]"
  by (subst natToString.simps) (simp add: natToString10_3 div_mult2_eq [symmetric])

lemma padStart2_decimal:
  "n < 100 \<Longrightarrow> padStart 2 (CHR ''0'') (natToString 10 n) = [digitChar (n div 10), digitChar (n mod 10)]"
  by (cases "n < 10") (simp_all add: natToString10_1 natToString10_2 padStart_def digitChar_0)

lemma formatDate_isoDate: "fourDigitDate d \<Longrightarrow> formatDate d = isoDate d"
proof -
  assume fd: "fourDigitDate d"
  then have y: "1000 \<le> nat (getFullYear d)" "nat (getFullYear d) < 10000"
    unfolding fourDigitDate_def by linarith+
  from fd have md: "getMonth d + 1 < 100" "getDate d < 100" "\<not> getFullYear d < 0"
    by (simp_all add: fourDigitDate_def)
  show ?thesis
    unfolding formatDate_def isoDate_def Let_def intToString_def
    using md by (simp add: natToString10_4 [OF y] padStart2_decimal)
qed

lemma generateDownloadFilename_no_dot:
  "CHR ''.'' \<notin> set name \<Longrightarrow>
     generateDownloadFilename name d = name @ ''_'' @ formatDate d @ ''_encrypted''"
  by (simp add: generateDownloadFilename_def Let_def lastIndexOf_none)

lemma generateDownloadFilename_last_dot:
  "CHR ''.'' \<notin> set ext \<Longrightarrow>
     generateDownloadFilename (stem @ ''.'' @ ext) d
       = stem @ ''_'' @ formatDate d @ ''_encrypted'' @ ''.'' @ ext"
  by (simp add: generateDownloadFilename_def Let_def lastIndexOf_last)

text \<open>
  Claim C7. \<^verbatim>\<open>generateDownloadFilename\<close> splits the original name at its last dot (a name
  without a dot is all stem and has no extension) and returns the stem, an underscore, the date
  as \<^verbatim>\<open>YYYY-MM-DD\<close>, \<^verbatim>\<open>_encrypted\<close> and the extension with its dot; for \<^verbatim>\<open>my.data.xlsx\<close> on
  2 October 2025 that is \<^verbatim>\<open>my.data_2025-10-02_encrypted.xlsx\<close>. The date is any date with a
  four-digit year.
\<close>

theorem generateDownloadFilename_pattern:
  "(fourDigitDate d \<longrightarrow>
      (CHR ''.'' \<notin> set name \<longrightarrow>
         generateDownloadFilename name d = name @ ''_'' @ isoDate d @ ''_encrypted'')
    \<and> (CHR ''.'' \<notin> set ext \<longrightarrow>
         generateDownloadFilename (stem @ ''.'' @ ext) d
           = stem @ ''_'' @ isoDate d @ ''_encrypted'' @ ''.'' @ ext))
   \<and> generateDownloadFilename ''my.data.xlsx'' \<lparr> getFullYear = 2025, getMonth = 9, getDate = 2 \<rparr>
        = ''my.data_2025-10-02_encrypted.xlsx''"
proof (intro conjI impI)
  assume "fourDigitDate d" "CHR ''.'' \<notin> set name"
  then show "generateDownloadFilename name d = name @ ''_'' @ isoDate d @ ''_encrypted''"
    by (simp add: generateDownloadFilename_no_dot formatDate_isoDate)
next
  assume "fourDigitDate d" "CHR ''.'' \<notin> set ext"
  then show "generateDownloadFilename (stem @ ''.'' @ ext) d
               = stem @ ''_'' @ isoDate d @ ''_encrypted'' @ ''.'' @ ext"
    using generateDownloadFilename_last_dot [of ext stem d] by (simp add: formatDate_isoDate)
next
  show "generateDownloadFilename ''my.data.xlsx'' \<lparr> getFullYear = 2025, getMonth = 9, getDate = 2 \<rparr>
          = ''my.data_2025-10-02_encrypted.xlsx''"
    by code_simp
qed

theorem generateDownloadFilename_pattern_witness:
  "fourDigitDate \<lparr> getFullYear = 2024, getMonth = 1, getDate = 29 \<rparr>
   \<and> CHR ''.'' \<notin> set ''report''
   \<and> CHR ''.'' \<notin> set ''csv''
   \<and> generateDownloadFilename ''report'' \<lparr> getFullYear = 2024, getMonth = 1, getDate = 29 \<rparr>
        = ''report_2024-02-29_encrypted''
   \<and> generateDownloadFilename ''a.b.csv'' \<lparr> getFullYear = 2024, getMonth = 1, getDate = 29 \<rparr>
        = ''a.b_2024-02-29_encrypted.csv''"
proof -
  let ?d = "\<lparr> getFullYear = 2024, getMonth = 1, getDate = 29 \<rparr>"
  have fd: "fourDigitDate ?d" by (simp add: fourDigitDate_def)
  have nd: "CHR ''.'' \<notin> set ''report''" "CHR ''.'' \<notin> set ''csv''" by simp_all
  have iso: "isoDate ?d = ''2024-02-29''" by code_simp
  from generateDownloadFilename_pattern [of ?d "''report''" "''csv''" "''a.b''"] fd nd
  have "generateDownloadFilename ''report'' ?d = ''report'' @ ''_'' @ isoDate ?d @ ''_encrypted''"
    and "generateDownloadFilename (''a.b'' @ ''.'' @ ''csv'') ?d
           = ''a.b'' @ ''_'' @ isoDate ?d @ ''_encrypted'' @ ''.'' @ ''csv''"
    by blast+
  note eqs = this [unfolded iso]
  have "generateDownloadFilename ''report'' ?d = ''report_2024-02-29_encrypted''"
    using eqs(1) by simp
  moreover have "generateDownloadFilename ''a.b.csv'' ?d = ''a.b_2024-02-29_encrypted.csv''"
    using eqs(2) by simp
  ultimately show ?thesis using fd nd by blast
qed

section \<open>Properties of findTargetColumns\<close>

lemma findTargetColumns_isTarget:
  "m \<in> set (findTargetColumns hs) \<Longrightarrow>
     isTarget m \<longleftrightarrow> normalizedName m \<in> set aliasNames \<or> normalizedName m \<in> set objectPrototypeMembers"
proof -
  have keys: "map fst targetPatterns = aliasNames"
    by (simp add: targetPatterns_def aliasNames_def)
  have look: "getTargetPattern k \<noteq> None \<longleftrightarrow> k \<in> set aliasNames \<or> k \<in> set objectPrototypeMembers" for k
  proof (cases "map_of targetPatterns k")
    case None
    then have "k \<notin> set aliasNames"
      using keys by (metis map_of_eq_None_iff set_map)
    with None show ?thesis by (simp add: getTargetPattern_def)
  next
    case (Some t)
    then have "k \<in> set aliasNames"
      using keys by (metis map_of_SomeD set_map image_eqI fst_conv)
    with Some show ?thesis by (simp add: getTargetPattern_def)
  qed
  assume "m \<in> set (findTargetColumns hs)"
  then obtain i h where "m = \<lparr> originalName = h, normalizedName = normalizeColumnName h,
      isTarget = (getTargetPattern (normalizeColumnName h) \<noteq> None),
      targetType = getTargetPattern (normalizeColumnName h), columnIndex = i \<rparr>"
    by (auto simp: findTargetColumns_def Let_def)
  then show ?thesis using look [of "normalizeColumnName h"] by simp
qed

lemma findTargetColumns_empty_name:
  "m \<in> set (findTargetColumns hs) \<Longrightarrow> normalizedName m = [] \<Longrightarrow> \<not> isTarget m"
  by (auto simp: findTargetColumns_isTarget aliasNames_def objectPrototypeMembers_def)

lemma findTargetColumns_columnIndex:
  "map columnIndex (findTargetColumns hs) = [0..<length hs]"
  by (simp add: findTargetColumns_def Let_def case_prod_unfold comp_def map_fst_enumerate)

lemma toLowerChar_idem: "toLowerChar (toLowerChar c) = toLowerChar c"
  by (auto simp: toLowerChar_def Let_def)

lemma set_trim: "set (trim s) \<subseteq> set s"
proof -
  have "set (trim s) \<subseteq> set (dropWhile isWhiteSpace s)"
    unfolding trim_def using set_dropWhileD [of _ isWhiteSpace "rev (dropWhile isWhiteSpace s)"]
    by auto
  also have "\<dots> \<subseteq> set s" using set_dropWhileD [of _ isWhiteSpace s] by auto
  finally show ?thesis .
qed

lemma normalizeColumnName_chars:
  "c \<in> set (normalizeColumnName h) \<Longrightarrow> \<not> isSeparator c \<and> toLowerChar c = c"
proof -
  assume "c \<in> set (normalizeColumnName h)"
  then have "c \<in> set (filter (\<lambda>c. \<not> isSeparator c) (toLowerCase h))"
    unfolding normalizeColumnName_def using set_trim by blast
  then show ?thesis by (auto simp: toLowerCase_def toLowerChar_idem)
qed

lemma prototype_member_reachable:
  "normalizeColumnName h \<in> set objectPrototypeMembers \<longleftrightarrow> normalizeColumnName h = ''constructor''"
proof -
  have only: "filter (\<lambda>k. \<forall>c\<in>set k. \<not> isSeparator c \<and> toLowerChar c = c) objectPrototypeMembers
                = [''constructor'']"
    by code_simp
  have mem: "''constructor'' \<in> set objectPrototypeMembers"
    by (simp add: objectPrototypeMembers_def)
  show ?thesis
  proof
    assume a: "normalizeColumnName h \<in> set objectPrototypeMembers"
    have "\<forall>c\<in>set (normalizeColumnName h). \<not> isSeparator c \<and> toLowerChar c = c"
      using normalizeColumnName_chars by blast
    with a have "normalizeColumnName h
        \<in> set (filter (\<lambda>k. \<forall>c\<in>set k. \<not> isSeparator c \<and> toLowerChar c = c) objectPrototypeMembers)"
      by simp
    then show "normalizeColumnName h = ''constructor''" unfolding only by simp
  next
    assume "normalizeColumnName h = ''constructor''"
    with mem show "normalizeColumnName h \<in> set objectPrototypeMembers" by simp
  qed
qed

text \<open>Apart from the headers that normalize to \<^verbatim>\<open>constructor\<close>, a mapping is a target exactly
  when its normalized name is an alias.\<close>

lemma findTargetColumns_isTarget_iff:
  assumes "m \<in> set (findTargetColumns hs)"
  shows "isTarget m \<longleftrightarrow> normalizedName m \<in> set aliasNames \<or> normalizedName m = ''constructor''"
proof -
  from assms obtain h where "normalizedName m = normalizeColumnName h"
    by (auto simp: findTargetColumns_def Let_def)
  with findTargetColumns_isTarget [OF assms] prototype_member_reachable [of h]
  show ?thesis by simp
qed

text \<open>
  Claim C3. Each mapping of \<^verbatim>\<open>findTargetColumns\<close> is a target if and only if its normalized name
  is one of the eleven alias strings. The code reads \<^verbatim>\<open>targetPatterns[normalized]\<close> on a plain
  object, which also answers for the members inherited from \<^verbatim>\<open>Object.prototype\<close>: the header
  \<^verbatim>\<open>Constructor\<close> normalizes to \<^verbatim>\<open>constructor\<close>, no alias, and is marked as a target, with the
  inherited function as its target type.
\<close>

theorem findTargetColumns_constructor_header:
  "map isTarget (findTargetColumns [''Name'', ''Constructor'']) = [False, True]
   \<and> map normalizedName (findTargetColumns [''Name'', ''Constructor'']) = [''name'', ''constructor'']
   \<and> map targetType (findTargetColumns [''Name'', ''Constructor''])
        = [None, Some (Inherited ''constructor'')]
   \<and> ''constructor'' \<notin> set aliasNames"
  by code_simp

section \<open>The loops of handleEncrypt as one pass in row-major order\<close>

lemma runCells_append:
  "runCells host t (xs @ ys) s =
     (case runCells host t xs s of Inl e \<Rightarrow> Inl e | Inr s1 \<Rightarrow> runCells host t ys s1)"
  by (induction xs arbitrary: s) (auto split: sum.splits)

lemma encryptRow_runCells: "encryptRow host t a ms s = runCells host t (map (Pair a) ms) s"
  by (induction ms arbitrary: s) (auto split: sum.splits)

lemma product_append_left: "List.product (xs @ ys) zs = List.product xs zs @ List.product ys zs"
  by (induction xs) simp_all

lemma processChunk_runCells:
  "chunkEnd \<le> length rs \<Longrightarrow>
     processChunk host t rs ms rowIdx chunkEnd s
       = runCells host t (List.product (take (chunkEnd - rowIdx) (drop rowIdx rs)) ms) s"
proof (induction host t rs ms rowIdx chunkEnd s rule: processChunk.induct)
  case (1 host t rs ms rowIdx chunkEnd s)
  show ?case
  proof (cases "rowIdx < chunkEnd")
    case False
    then show ?thesis by (simp add: processChunk.simps)
  next
    case True
    with "1.prems" have inr: "rowIdx < length rs" by simp
    have split: "take (chunkEnd - rowIdx) (drop rowIdx rs)
                   = rs ! rowIdx # take (chunkEnd - (rowIdx + 1)) (drop (rowIdx + 1) rs)"
      using True inr by (simp add: Cons_nth_drop_Suc [symmetric] take_Suc_Cons [symmetric] Suc_diff_Suc del: take_Suc_Cons)
    show ?thesis
      using True inr "1.IH"(1) [OF True inr _ "1.prems"]
      by (subst processChunk.simps) (simp add: split runCells_append encryptRow_runCells split: sum.splits)
  qed
qed

lemma processRows_runCells:
  "processRows host t rs ms i s = runCells host t (List.product (drop i rs) ms) s"
proof (induction host t rs ms i s rule: processRows.induct)
  case (1 host t rs ms i s)
  show ?case
  proof (cases "i < length rs")
    case False
    then show ?thesis by (simp add: processRows.simps)
  next
    case True
    let ?e = "min (i + chunkSize) (length rs)"
    have e: "?e \<le> length rs" by simp
    have split: "drop i rs = take (?e - i) (drop i rs) @ drop (i + chunkSize) rs"
    proof (cases "i + chunkSize \<le> length rs")
      case True
      then have a: "?e - i = chunkSize" by simp
      have "take chunkSize (drop i rs) @ drop chunkSize (drop i rs) = drop i rs"
        by (rule append_take_drop_id)
      then show ?thesis using a by (simp add: add.commute)
    next
      case False
      then show ?thesis by simp
    qed
    have "processRows host t rs ms i s =
            (case processChunk host t rs ms i ?e s of Inl e \<Rightarrow> Inl e
             | Inr s1 \<Rightarrow> processRows host t rs ms (i + chunkSize) s1)"
      using True by (subst processRows.simps) (simp add: Let_def)
    also have "\<dots> = (case runCells host t (List.product (take (?e - i) (drop i rs)) ms) s of
                       Inl e \<Rightarrow> Inl e
                     | Inr s1 \<Rightarrow> runCells host t (List.product (drop (i + chunkSize) rs) ms) s1)"
      using "1.IH" [OF True refl] by (simp add: processChunk_runCells [OF e] split: sum.splits)
    also have "\<dots> = runCells host t (List.product (drop i rs) ms) s"
    proof -
      have "List.product (drop i rs) ms
              = List.product (take (?e - i) (drop i rs)) ms @ List.product (drop (i + chunkSize) rs) ms"
        using split product_append_left by metis
      then show ?thesis by (simp only: runCells_append)
    qed
    finally show ?thesis .
  qed
qed

section \<open>One cell step\<close>

lemma encryptCell_not_target: "\<not> isTarget m \<Longrightarrow> encryptCell host t a m s = Inr s"
  by (simp add: encryptCell_def)

lemma encryptCell_target:
  "isTarget m \<Longrightarrow> encryptCell host t a m s =
     (let v = readCell (cells s a) (columnIndex m)
      in if isEmptyCell v
         then Inr (s\<lparr> processedCells := processedCells s + 1,
                       progressSeq := progressSeq s @ [progressPercent (processedCells s + 1) t] \<rparr>)
         else (case hashValue (subtleDigest host) (cellToString v) of
                 Inl e \<Rightarrow> Inl (e, s)
               | Inr h \<Rightarrow>
                   Inr (s\<lparr> cells := (cells s)(a := (cells s a)[columnIndex m := hashToCell h]),
                           encryptedCount := encryptedCount s + 1,
                           processedCells := processedCells s + 1,
                           progressSeq := progressSeq s @ [progressPercent (processedCells s + 1) t] \<rparr>)))"
  by (simp add: encryptCell_def isEmptyCell_def Let_def split: sum.splits)

lemma encryptCell_Inl: "encryptCell host t a m s = Inl (e, s') \<Longrightarrow> s' = s \<and> isTarget m"
  by (cases "isTarget m")
     (auto simp: encryptCell_target encryptCell_not_target Let_def split: if_splits sum.splits)

section \<open>Progress values\<close>

lemma upt_Suc_snoc: "[1..<Suc (Suc n)] = [1..<Suc n] @ [Suc n]"
  by simp

lemma encryptCell_progress:
  assumes inv: "progressSeq s = map (\<lambda>k. progressPercent k t) [1..<Suc (processedCells s)]"
    and step: "encryptCell host t a m s = Inr s'"
  shows "progressSeq s' = map (\<lambda>k. progressPercent k t) [1..<Suc (processedCells s')]
         \<and> processedCells s' = processedCells s + (if isTarget m then 1 else 0)"
proof (cases "isTarget m")
  case False
  with step inv show ?thesis by (simp add: encryptCell_not_target)
next
  case True
  with step inv show ?thesis
    by (auto simp: encryptCell_target Let_def split: if_splits sum.splits)
qed

lemma runCells_progress_Inr:
  "progressSeq s = map (\<lambda>k. progressPercent k t) [1..<Suc (processedCells s)] \<Longrightarrow>
   runCells host t L s = Inr s' \<Longrightarrow>
     progressSeq s' = map (\<lambda>k. progressPercent k t) [1..<Suc (processedCells s')]
     \<and> processedCells s' = processedCells s + length (filter (isTarget \<circ> snd) L)"
proof (induction L arbitrary: s)
  case Nil
  then show ?case by simp
next
  case (Cons p L)
  obtain a m where p: "p = (a, m)" by (cases p)
  from Cons.prems(2) obtain s1 where s1: "encryptCell host t a m s = Inr s1"
    and rest: "runCells host t L s1 = Inr s'"
    by (auto simp: p split: sum.splits)
  from encryptCell_progress [OF Cons.prems(1) s1]
  have i1: "progressSeq s1 = map (\<lambda>k. progressPercent k t) [1..<Suc (processedCells s1)]"
    and c1: "processedCells s1 = processedCells s + (if isTarget m then 1 else 0)" by simp_all
  from Cons.IH [OF i1 rest] c1 show ?case by (auto simp: p simp del: upt_Suc)
qed

lemma runCells_progress_Inl:
  "progressSeq s = map (\<lambda>k. progressPercent k t) [1..<Suc (processedCells s)] \<Longrightarrow>
   runCells host t L s = Inl (e, s') \<Longrightarrow>
     progressSeq s' = map (\<lambda>k. progressPercent k t) [1..<Suc (processedCells s')]
     \<and> processedCells s' < processedCells s + length (filter (isTarget \<circ> snd) L)"
proof (induction L arbitrary: s)
  case Nil
  then show ?case by simp
next
  case (Cons p L)
  obtain a m where p: "p = (a, m)" by (cases p)
  show ?case
  proof (cases "encryptCell host t a m s")
    case (Inl r)
    with Cons.prems(2) have r: "r = (e, s')" by (simp add: p)
    from encryptCell_Inl [OF Inl [unfolded r]] Cons.prems(1) show ?thesis by (simp add: p)
  next
    case (Inr s1)
    with Cons.prems(2) have rest: "runCells host t L s1 = Inl (e, s')" by (simp add: p)
    from encryptCell_progress [OF Cons.prems(1) Inr]
    have i1: "progressSeq s1 = map (\<lambda>k. progressPercent k t) [1..<Suc (processedCells s1)]"
      and c1: "processedCells s1 = processedCells s + (if isTarget m then 1 else 0)" by simp_all
    from Cons.IH [OF i1 rest] c1 show ?thesis by (auto simp: p simp del: upt_Suc)
  qed
qed

lemma length_filter_product:
  "length (filter (isTarget \<circ> snd) (List.product rs ms)) = length rs * length (filter isTarget ms)"
  by (induction rs) (simp_all add: filter_map comp_def)

section \<open>The three outcomes of handleEncrypt\<close>

lemma handleEncrypt_no_data:
  "parsedData app = None \<or> fileObj app = None \<Longrightarrow> handleEncrypt host app = app"
  by (auto simp: handleEncrypt_def split: option.splits)

lemma handleEncrypt_hash_failure:
  assumes "parsedData app = Some pd" "fileObj app = Some f"
    and "encryptionPass host pd app = Inl (e, s)"
  shows "handleEncrypt host app =
           app\<lparr> appState := ERROR, errorMessage := errorText e, objects := cells s,
                progressCalls := progressCalls app @ 0 # progressSeq s \<rparr>"
  using assms
  by (simp add: handleEncrypt_def encryptionPass_def totalCellsOf_def runStart_def
        processRows_runCells catchError_def errorText_def Let_def)

lemma handleEncrypt_generator_failure:
  assumes "parsedData app = Some pd" "fileObj app = Some f"
    and "encryptionPass host pd app = Inr s"
    and "generateBlob host (cells s) pd f = Inl e"
  shows "handleEncrypt host app =
           app\<lparr> appState := ERROR, errorMessage := errorText e, objects := cells s,
                progressCalls := progressCalls app @ 0 # progressSeq s \<rparr>"
  using assms
  by (auto simp: handleEncrypt_def encryptionPass_def totalCellsOf_def runStart_def generateBlob_def
        processRows_runCells catchError_def errorText_def Let_def split: if_splits)

lemma handleEncrypt_success:
  assumes "parsedData app = Some pd" "fileObj app = Some f"
    and "encryptionPass host pd app = Inr s"
    and "generateBlob host (cells s) pd f = Inr blob"
  shows "handleEncrypt host app =
           app\<lparr> appState := COMPLETE, objects := cells s,
                progressCalls := progressCalls app @ 0 # progressSeq s @ [100],
                downloaded := downloaded app @ [(blob, generateDownloadFilename (fileName f) (today host))],
                stats := \<lparr> totalRows = length (rows pd), encryptedCells = encryptedCount s,
                           duration = endTime host - startTime host \<rparr> \<rparr>"
  using assms
  by (auto simp: handleEncrypt_def encryptionPass_def totalCellsOf_def runStart_def generateBlob_def
        processRows_runCells Let_def split: if_splits)

lemma handleEncrypt_outcomes:
  assumes "parsedData app = Some pd" "fileObj app = Some f"
  obtains (hash_failure) e s where "encryptionPass host pd app = Inl (e, s)"
  | (generator_failure) e s where "encryptionPass host pd app = Inr s"
      "generateBlob host (cells s) pd f = Inl e"
  | (success) s blob where "encryptionPass host pd app = Inr s"
      "generateBlob host (cells s) pd f = Inr blob"
proof (cases "encryptionPass host pd app")
  case (Inl r)
  then show ?thesis using hash_failure by (cases r) auto
next
  case (Inr s)
  then show ?thesis using generator_failure success
    by (cases "generateBlob host (cells s) pd f") auto
qed

section \<open>Rounding to double precision\<close>

lemma floorLog2_window:
  assumes "0 < x"
  shows "2 powi (floorLog2 x) \<le> x \<and> x < 2 powi (floorLog2 x + 1)"
proof -
  obtain a b where q: "quotient_of x = (a, b)" by (cases "quotient_of x")
  then have b: "0 < b" and x: "x = of_int a / of_int b"
    by (simp_all add: quotient_of_denom_pos quotient_of_div)
  from assms x b have a: "0 < a" by (simp add: zero_less_divide_iff)
  define k where "k = floorlog 2 (nat a)"
  define l where "l = floorlog 2 (nat b)"
  have k: "2 ^ (k - 1) \<le> nat a" "nat a < 2 ^ k" and l: "2 ^ (l - 1) \<le> nat b" "nat b < 2 ^ l"
    using floorlog_bounds [of "nat a" 2] floorlog_bounds [of "nat b" 2] a b
    by (simp_all add: k_def l_def)
  have kpos: "0 < k" and lpos: "0 < l"
    using a b by (simp_all add: k_def l_def floorlog_def)
  have ka: "(2::rat) ^ (k - 1) \<le> of_int a" "of_int a < (2::rat) ^ k"
    and lb: "(2::rat) ^ (l - 1) \<le> of_int b" "of_int b < (2::rat) ^ l"
  proof -
    have "(2::rat) ^ (k - 1) = of_nat (2 ^ (k - 1))" by simp
    also have "\<dots> \<le> of_nat (nat a)" using k(1) by (subst of_nat_le_iff)
    finally show "(2::rat) ^ (k - 1) \<le> of_int a" using a by simp
    have "of_nat (nat a) < (of_nat (2 ^ k) :: rat)" using k(2) by (subst of_nat_less_iff)
    then show "of_int a < (2::rat) ^ k" using a by simp
    have "(2::rat) ^ (l - 1) = of_nat (2 ^ (l - 1))" by simp
    also have "\<dots> \<le> of_nat (nat b)" using l(1) by (subst of_nat_le_iff)
    finally show "(2::rat) ^ (l - 1) \<le> of_int b" using b by simp
    have "of_nat (nat b) < (of_nat (2 ^ l) :: rat)" using l(2) by (subst of_nat_less_iff)
    then show "of_int b < (2::rat) ^ l" using b by simp
  qed
  define d where "d = int k - int l"
  have bpos: "(0::rat) < of_int b" using b by simp
  have "d - 1 = int (k - 1) - int l" using kpos by (simp add: d_def)
  then have p1: "(2::rat) powi (d - 1) = 2 ^ (k - 1) / 2 ^ l"
    by (simp add: power_int_diff)
  have "d + 1 = int k - int (l - 1)" using lpos by (simp add: d_def)
  then have p2: "(2::rat) powi (d + 1) = 2 ^ k / 2 ^ (l - 1)"
    by (simp add: power_int_diff)
  have lo: "2 powi (d - 1) < x"
    unfolding p1 x using ka(1) lb(2) bpos by (intro frac_less2) simp_all
  have hi: "x < 2 powi (d + 1)"
    unfolding p2 x using ka(2) lb(1) a by (intro frac_less) simp_all
  have fl: "floorLog2 x = (if 2 powi d \<le> x then d else d - 1)"
    by (simp add: floorLog2_def q k_def l_def d_def Let_def)
  show ?thesis
  proof (cases "2 powi d \<le> x")
    case True
    with hi show ?thesis by (simp add: fl)
  next
    case False
    with lo show ?thesis by (simp add: fl)
  qed
qed

lemma powi_window_unique:
  assumes "(2::rat) powi e \<le> x" "x < 2 powi (e + 1)" "2 powi e' \<le> x" "x < 2 powi (e' + 1)"
  shows "e = e'"
proof (rule ccontr)
  assume "e \<noteq> e'"
  then consider "e + 1 \<le> e'" | "e' + 1 \<le> e" by linarith
  then show False
  proof cases
    case 1
    then have "(2::rat) powi (e + 1) \<le> 2 powi e'" by (intro power_int_increasing) simp_all
    with assms show False by linarith
  next
    case 2
    then have "(2::rat) powi (e' + 1) \<le> 2 powi e" by (intro power_int_increasing) simp_all
    with assms show False by linarith
  qed
qed

lemma floorLog2_eqI: "2 powi e \<le> x \<Longrightarrow> x < 2 powi (e + 1) \<Longrightarrow> floorLog2 x = e"
proof -
  assume a: "2 powi e \<le> x" "x < 2 powi (e + 1)"
  have "(0::rat) < 2 powi e" by simp
  with a have "0 < x" by linarith
  from floorLog2_window [OF this] a show ?thesis
    using powi_window_unique by blast
qed

lemma floorLog2_mono: "0 < x \<Longrightarrow> x \<le> y \<Longrightarrow> floorLog2 x \<le> floorLog2 y"
proof (rule ccontr)
  assume xy: "0 < x" "x \<le> y" and "\<not> floorLog2 x \<le> floorLog2 y"
  then have "floorLog2 y + 1 \<le> floorLog2 x" by simp
  then have "(2::rat) powi (floorLog2 y + 1) \<le> 2 powi (floorLog2 x)"
    by (intro power_int_increasing) simp_all
  moreover from xy have "0 < y" by simp
  ultimately show False
    using floorLog2_window [OF xy(1)] floorLog2_window [OF \<open>0 < y\<close>] xy(2) by linarith
qed

lemma roundHalfEven_of_int: "roundHalfEven (of_int n) = n"
  by (simp add: roundHalfEven_def)

lemma roundHalfEven_floor: "\<lfloor>q\<rfloor> \<le> roundHalfEven q \<and> roundHalfEven q \<le> \<lfloor>q\<rfloor> + 1"
  by (simp add: roundHalfEven_def Let_def)

lemma roundHalfEven_mono: "q \<le> r \<Longrightarrow> roundHalfEven q \<le> roundHalfEven r"
proof -
  assume qr: "q \<le> r"
  then have fl: "\<lfloor>q\<rfloor> \<le> \<lfloor>r\<rfloor>" by (rule floor_mono)
  show ?thesis
  proof (cases "\<lfloor>q\<rfloor> = \<lfloor>r\<rfloor>")
    case True
    then show ?thesis using qr by (auto simp: roundHalfEven_def Let_def)
  next
    case False
    with fl have "\<lfloor>q\<rfloor> + 1 \<le> \<lfloor>r\<rfloor>" by simp
    then show ?thesis
      using roundHalfEven_floor [of q] roundHalfEven_floor [of r] by linarith
  qed
qed


lemma toDouble_pos:
  "0 < x \<Longrightarrow> toDouble x = of_int (roundHalfEven (x / 2 powi (floorLog2 x - 52))) * 2 powi (floorLog2 x - 52)"
  by (simp add: toDouble_def Let_def)

lemma toDouble_window:
  assumes "0 < x"
  shows "2 powi (floorLog2 x) \<le> toDouble x \<and> toDouble x \<le> 2 powi (floorLog2 x + 1)"
proof -
  define e where "e = floorLog2 x"
  define ulp :: rat where "ulp = 2 powi (e - 52)"
  have ulp: "0 < ulp" by (simp add: ulp_def)
  have w: "2 powi e \<le> x" "x < 2 powi (e + 1)"
    using floorLog2_window [OF assms] by (simp_all add: e_def)
  have lo_eq: "(2::rat) powi e = 2 ^ 52 * ulp" and hi_eq: "(2::rat) powi (e + 1) = 2 ^ 53 * ulp"
    by (simp_all add: ulp_def power_int_diff power_int_add)
  have q_lo: "2 ^ 52 \<le> x / ulp" and q_hi: "x / ulp \<le> 2 ^ 53"
    using w ulp by (simp_all add: lo_eq hi_eq pos_le_divide_eq pos_divide_le_eq)
  have "roundHalfEven (of_int (2 ^ 52)) \<le> roundHalfEven (x / ulp)"
    using q_lo by (intro roundHalfEven_mono) simp
  then have r_lo: "2 ^ 52 \<le> roundHalfEven (x / ulp)" by (simp only: roundHalfEven_of_int)
  have "roundHalfEven (x / ulp) \<le> roundHalfEven (of_int (2 ^ 53))"
    using q_hi by (intro roundHalfEven_mono) simp
  then have r_hi: "roundHalfEven (x / ulp) \<le> 2 ^ 53" by (simp only: roundHalfEven_of_int)
  have "(2::rat) ^ 52 \<le> of_int (roundHalfEven (x / ulp))"
    using r_lo by (metis of_int_le_iff of_int_numeral of_int_power)
  then have a: "2 powi e \<le> of_int (roundHalfEven (x / ulp)) * ulp"
    unfolding lo_eq using ulp by simp
  have "of_int (roundHalfEven (x / ulp)) \<le> (2::rat) ^ 53"
    using r_hi by (metis of_int_le_iff of_int_numeral of_int_power)
  then have b: "of_int (roundHalfEven (x / ulp)) * ulp \<le> 2 powi (e + 1)"
    unfolding hi_eq using ulp by simp
  show ?thesis
    using a b by (simp add: toDouble_pos [OF assms] e_def ulp_def)
qed

lemma toDouble_nonneg: "0 \<le> toDouble x"
proof (cases "0 < x")
  case True
  have "(0::rat) \<le> 2 powi (floorLog2 x)" by simp
  with toDouble_window [OF True] show ?thesis by linarith
next
  case False
  then show ?thesis by (simp add: toDouble_def)
qed

lemma toDouble_mono: "x \<le> y \<Longrightarrow> toDouble x \<le> toDouble y"
proof -
  assume xy: "x \<le> y"
  show ?thesis
  proof (cases "0 < x")
    case False
    then have "toDouble x = 0" by (simp add: toDouble_def)
    then show ?thesis by (simp add: toDouble_nonneg)
  next
    case True
    with xy have y: "0 < y" by simp
    have le: "floorLog2 x \<le> floorLog2 y" using True xy by (rule floorLog2_mono)
    show ?thesis
    proof (cases "floorLog2 x = floorLog2 y")
      case same: True
      have "x / 2 powi (floorLog2 y - 52) \<le> y / 2 powi (floorLog2 y - 52)"
        using xy by (simp add: divide_right_mono)
      then have "roundHalfEven (x / 2 powi (floorLog2 y - 52)) \<le> roundHalfEven (y / 2 powi (floorLog2 y - 52))"
        by (rule roundHalfEven_mono)
      then have "(of_int (roundHalfEven (x / 2 powi (floorLog2 y - 52))) :: rat)
                   \<le> of_int (roundHalfEven (y / 2 powi (floorLog2 y - 52)))"
        by simp
      then show ?thesis
        by (simp add: toDouble_pos [OF True] toDouble_pos [OF y] same mult_right_mono)
    next
      case False
      with le have "floorLog2 x + 1 \<le> floorLog2 y" by simp
      then have "(2::rat) powi (floorLog2 x + 1) \<le> 2 powi (floorLog2 y)"
        by (intro power_int_increasing) simp_all
      with toDouble_window [OF True] toDouble_window [OF y] show ?thesis by linarith
    qed
  qed
qed

lemma toDouble_representable:
  assumes "2 ^ 52 \<le> n" "n < 2 ^ 53"
  shows "toDouble (of_int n * 2 powi (e - 52)) = of_int n * 2 powi (e - 52)"
proof -
  define ulp :: rat where "ulp = 2 powi (e - 52)"
  have ulp: "0 < ulp" by (simp add: ulp_def)
  have lo_eq: "(2::rat) powi e = 2 ^ 52 * ulp" and hi_eq: "(2::rat) powi (e + 1) = 2 ^ 53 * ulp"
    by (simp_all add: ulp_def power_int_diff power_int_add)
  have n1: "(2::rat) ^ 52 \<le> of_int n"
    using assms(1) by (metis of_int_le_iff of_int_numeral of_int_power)
  have n2: "of_int n < (2::rat) ^ 53"
    using assms(2) by (metis of_int_less_iff of_int_numeral of_int_power)
  have w: "2 powi e \<le> of_int n * ulp" "of_int n * ulp < 2 powi (e + 1)"
    unfolding lo_eq hi_eq using n1 n2 ulp by simp_all
  then have fl: "floorLog2 (of_int n * ulp) = e" by (rule floorLog2_eqI)
  have pos: "0 < of_int n * ulp" using w(1) lo_eq ulp
    by (metis less_le_trans zero_less_power_int zero_less_numeral)
  show ?thesis
    unfolding ulp_def [symmetric]
    using ulp by (simp add: toDouble_pos [OF pos] fl ulp_def [symmetric] roundHalfEven_of_int)
qed

lemma toDouble_1: "toDouble 1 = 1"
  using toDouble_representable [of "2 ^ 52" 0] by (simp add: power_int_minus)

lemma toDouble_100: "toDouble 100 = 100"
  using toDouble_representable [of "100 * 2 ^ 46" 6] by (simp add: power_int_minus)

lemma toDouble_0: "toDouble 0 = 0"
  by (simp add: toDouble_def)

lemma mathRound_mono: "x \<le> y \<Longrightarrow> mathRound x \<le> mathRound y"
  by (simp add: mathRound_def floor_mono)

lemma mathRound_of_int: "mathRound (of_int n) = n"
  unfolding mathRound_def by (subst floor_eq_iff) simp

lemma progressPercent_mono: "k \<le> k' \<Longrightarrow> progressPercent k t \<le> progressPercent k' t"
  unfolding progressPercent_def
  by (intro mathRound_mono toDouble_mono mult_right_mono divide_right_mono) simp_all

lemma progressPercent_0: "progressPercent 0 t = 0"
  using mathRound_of_int [of 0] by (simp add: progressPercent_def toDouble_0)

lemma progressPercent_full: "0 < t \<Longrightarrow> progressPercent t t = 100"
  using mathRound_of_int [of 100] by (simp add: progressPercent_def toDouble_1 toDouble_100)

lemma progressPercent_range:
  assumes "k \<le> t" "0 < t"
  shows "0 \<le> progressPercent k t \<and> progressPercent k t \<le> 100"
  using progressPercent_mono [of 0 k t] progressPercent_mono [OF assms(1), of t]
    progressPercent_full [OF assms(2)]
  by (simp add: progressPercent_0)

section \<open>The store after one cell step\<close>

lemma readCell_update:
  "readCell (row[i := v]) j = (if j = i \<and> i < length row then v else readCell row j)"
  by (auto simp: readCell_def)

lemma readCell_defined: "readCell row i \<noteq> Undefined \<Longrightarrow> i < length row"
  by (auto simp: readCell_def split: if_splits)

lemma encryptCell_length:
  "encryptCell host t a m s = Inr s' \<Longrightarrow> length (cells s' b) = length (cells s b)"
  by (cases "isTarget m")
     (auto simp: encryptCell_target encryptCell_not_target Let_def split: if_splits sum.splits)

lemma encryptCell_other:
  "encryptCell host t a m s = Inr s' \<Longrightarrow> (b, j) \<noteq> (a, columnIndex m) \<or> \<not> isTarget m \<Longrightarrow>
     cellAt (cells s') b j = cellAt (cells s) b j"
  by (cases "isTarget m")
     (auto simp: encryptCell_target encryptCell_not_target Let_def cellAt_def readCell_update
           split: if_splits sum.splits)

lemma encryptCell_target_cell:
  "isTarget m \<Longrightarrow> encryptCell host t a m s = Inr s' \<Longrightarrow>
     cellAt (cells s') a (columnIndex m) = encryptedValue host (cellAt (cells s) a (columnIndex m))"
  by (auto simp: encryptCell_target Let_def cellAt_def readCell_update encryptedValue_def
        isEmptyCell_def dest: readCell_defined split: if_splits sum.splits)

lemma encryptCell_empty_kept:
  "encryptCell host t a m s = Inr s' \<Longrightarrow> isEmptyCell (cellAt (cells s) b j) \<Longrightarrow>
     cellAt (cells s') b j = cellAt (cells s) b j"
  by (cases "isTarget m")
     (auto simp: encryptCell_target encryptCell_not_target Let_def cellAt_def readCell_update
           split: if_splits sum.splits)

lemma encryptCell_count:
  "encryptCell host t a m s = Inr s' \<Longrightarrow>
     encryptedCount s' = encryptedCount s +
       (if isTarget m \<and> \<not> isEmptyCell (cellAt (cells s) a (columnIndex m)) then 1 else 0)"
  by (cases "isTarget m")
     (auto simp: encryptCell_target encryptCell_not_target Let_def cellAt_def
           split: if_splits sum.splits)

section \<open>The store after a pass\<close>

lemma targetCells_Cons:
  "targetCells ((a, m) # L) = (if isTarget m then (a, columnIndex m) # targetCells L else targetCells L)"
  by (simp add: targetCells_def)

lemma runCells_Inl_prefix:
  "runCells host t L s = Inl (e, s') \<Longrightarrow>
     \<exists>L1 p L2. L = L1 @ p # L2 \<and> runCells host t L1 s = Inr s'
        \<and> encryptCell host t (fst p) (snd p) s' = Inl (e, s')"
proof (induction L arbitrary: s)
  case Nil
  then show ?case by simp
next
  case (Cons p L)
  obtain a m where p: "p = (a, m)" by (cases p)
  show ?case
  proof (cases "encryptCell host t a m s")
    case (Inl r)
    with Cons.prems have r: "r = (e, s')" by (simp add: p)
    from encryptCell_Inl [OF Inl [unfolded r]] have "s' = s" by simp
    with Inl r have "p # L = [] @ p # L \<and> runCells host t [] s = Inr s'
        \<and> encryptCell host t (fst p) (snd p) s' = Inl (e, s')"
      by (simp add: p)
    then show ?thesis by blast
  next
    case (Inr s1)
    with Cons.prems have "runCells host t L s1 = Inl (e, s')" by (simp add: p)
    from Cons.IH [OF this] obtain L1 q L2 where
      "L = L1 @ q # L2" "runCells host t L1 s1 = Inr s'"
      "encryptCell host t (fst q) (snd q) s' = Inl (e, s')" by blast
    with Inr have "p # L = (p # L1) @ q # L2 \<and> runCells host t (p # L1) s = Inr s'
        \<and> encryptCell host t (fst q) (snd q) s' = Inl (e, s')"
      by (simp add: p)
    then show ?thesis by blast
  qed
qed

lemma runCells_length:
  "runCells host t L s = Inr s' \<Longrightarrow> length (cells s' b) = length (cells s b)"
proof (induction L arbitrary: s)
  case Nil
  then show ?case by simp
next
  case (Cons p L)
  obtain a m where p: "p = (a, m)" by (cases p)
  from Cons.prems obtain s1 where s1: "encryptCell host t a m s = Inr s1"
    and rest: "runCells host t L s1 = Inr s'"
    by (auto simp: p split: sum.splits)
  from Cons.IH [OF rest] encryptCell_length [OF s1] show ?case by simp
qed

lemma runCells_frame:
  "runCells host t L s = Inr s' \<Longrightarrow> (b, j) \<notin> set (targetCells L) \<Longrightarrow>
     cellAt (cells s') b j = cellAt (cells s) b j"
proof (induction L arbitrary: s)
  case Nil
  then show ?case by simp
next
  case (Cons p L)
  obtain a m where p: "p = (a, m)" by (cases p)
  from Cons.prems(1) obtain s1 where s1: "encryptCell host t a m s = Inr s1"
    and rest: "runCells host t L s1 = Inr s'"
    by (auto simp: p split: sum.splits)
  from Cons.prems(2) have notin: "(b, j) \<notin> set (targetCells L)"
    and other: "(b, j) \<noteq> (a, columnIndex m) \<or> \<not> isTarget m"
    by (auto simp: p targetCells_Cons split: if_splits)
  from Cons.IH [OF rest notin] encryptCell_other [OF s1 other] show ?case by simp
qed

lemma runCells_empty_kept:
  "runCells host t L s = Inr s' \<Longrightarrow> isEmptyCell (cellAt (cells s) b j) \<Longrightarrow>
     cellAt (cells s') b j = cellAt (cells s) b j"
proof (induction L arbitrary: s)
  case Nil
  then show ?case by simp
next
  case (Cons p L)
  obtain a m where p: "p = (a, m)" by (cases p)
  from Cons.prems(1) obtain s1 where s1: "encryptCell host t a m s = Inr s1"
    and rest: "runCells host t L s1 = Inr s'"
    by (auto simp: p split: sum.splits)
  have k1: "cellAt (cells s1) b j = cellAt (cells s) b j"
    using s1 Cons.prems(2) by (rule encryptCell_empty_kept)
  with Cons.prems(2) have "isEmptyCell (cellAt (cells s1) b j)" by simp
  from Cons.IH [OF rest this] k1 show ?case by simp
qed

lemma runCells_result:
  "distinct (targetCells L) \<Longrightarrow> runCells host t L s = Inr s' \<Longrightarrow>
   (b, j) \<in> set (targetCells L) \<Longrightarrow>
     cellAt (cells s') b j = encryptedValue host (cellAt (cells s) b j)"
proof (induction L arbitrary: s)
  case Nil
  then show ?case by (simp add: targetCells_def)
next
  case (Cons p L)
  obtain a m where p: "p = (a, m)" by (cases p)
  from Cons.prems(2) obtain s1 where s1: "encryptCell host t a m s = Inr s1"
    and rest: "runCells host t L s1 = Inr s'"
    by (auto simp: p split: sum.splits)
  show ?case
  proof (cases "isTarget m \<and> (b, j) = (a, columnIndex m)")
    case True
    then have here: "isTarget m" "b = a" "j = columnIndex m" by simp_all
    from Cons.prems(1) here have "(b, j) \<notin> set (targetCells L)"
      by (simp add: p targetCells_Cons)
    from runCells_frame [OF rest this] encryptCell_target_cell [OF here(1) s1]
    show ?thesis by (simp add: here)
  next
    case False
    with Cons.prems(3) have mem: "(b, j) \<in> set (targetCells L)"
      by (auto simp: p targetCells_Cons split: if_splits)
    from Cons.prems(1) have dist: "distinct (targetCells L)"
      by (simp add: p targetCells_Cons split: if_splits)
    from False have "(b, j) \<noteq> (a, columnIndex m) \<or> \<not> isTarget m" by blast
    from encryptCell_other [OF s1 this] Cons.IH [OF dist rest mem] show ?thesis by simp
  qed
qed

lemma runCells_count:
  "distinct (targetCells L) \<Longrightarrow> runCells host t L s = Inr s' \<Longrightarrow>
     encryptedCount s' = encryptedCount s
        + length (filter (\<lambda>(b, j). \<not> isEmptyCell (cellAt (cells s) b j)) (targetCells L))"
proof (induction L arbitrary: s)
  case Nil
  then show ?case by (simp add: targetCells_def)
next
  case (Cons p L)
  obtain a m where p: "p = (a, m)" by (cases p)
  from Cons.prems(2) obtain s1 where s1: "encryptCell host t a m s = Inr s1"
    and rest: "runCells host t L s1 = Inr s'"
    by (auto simp: p split: sum.splits)
  from Cons.prems(1) have dist: "distinct (targetCells L)"
    and fresh: "isTarget m \<longrightarrow> (a, columnIndex m) \<notin> set (targetCells L)"
    by (simp_all add: p targetCells_Cons split: if_splits)
  have same: "filter (\<lambda>(b, j). \<not> isEmptyCell (cellAt (cells s1) b j)) (targetCells L)
                = filter (\<lambda>(b, j). \<not> isEmptyCell (cellAt (cells s) b j)) (targetCells L)"
  proof (rule filter_cong [OF refl])
    fix x assume x: "x \<in> set (targetCells L)"
    obtain b j where bj: "x = (b, j)" by (cases x)
    with x fresh have "(b, j) \<noteq> (a, columnIndex m) \<or> \<not> isTarget m" by auto
    from encryptCell_other [OF s1 this]
    show "(case x of (b, j) \<Rightarrow> \<not> isEmptyCell (cellAt (cells s1) b j))
            = (case x of (b, j) \<Rightarrow> \<not> isEmptyCell (cellAt (cells s) b j))"
      by (simp add: bj)
  qed
  from Cons.IH [OF dist rest] encryptCell_count [OF s1] same
  show ?case by (simp add: p targetCells_Cons)
qed

lemma targetCells_product:
  "targetCells (List.product rs ms) = List.product rs (targetIndices ms)"
  by (induction rs) (simp_all add: targetCells_def targetIndices_def filter_map comp_def)

section \<open>The concrete runs\<close>

lemma demo_mappings:
  "columnMappings demoApp =
     [\<lparr> originalName = ''First Name'', normalizedName = ''firstname'', isTarget = True,
         targetType = Some (TargetType FirstName), columnIndex = 0 \<rparr>,
      \<lparr> originalName = ''Phone'', normalizedName = ''phone'', isTarget = True,
         targetType = Some (TargetType Phone), columnIndex = 1 \<rparr>,
      \<lparr> originalName = ''Dept'', normalizedName = ''dept'', isTarget = False,
         targetType = None, columnIndex = 2 \<rparr>]"
  unfolding demoApp_def demoData_def by code_simp

lemma demo_hashes:
  "hashValue webCrypto ''  JOHN  '' = Inr (Some (hashHex (sha256 (utf8Encode ''john''))))"
  "hashValue webCrypto (intToString 42) = Inr (Some (hashHex (sha256 (utf8Encode ''42''))))"
  "hashValue webCrypto ''true'' = Inr (Some (hashHex (sha256 (utf8Encode ''true''))))"
proof -
  have a: "toLowerCase (trim ''  JOHN  '') = ''john''" by code_simp
  have b: "toLowerCase (trim (intToString 42)) = ''42''" by code_simp
  have c: "toLowerCase (trim ''true'') = ''true''" by code_simp
  show "hashValue webCrypto ''  JOHN  '' = Inr (Some (hashHex (sha256 (utf8Encode ''john''))))"
    by (simp add: hashValue_def webCrypto_def a)
  show "hashValue webCrypto (intToString 42) = Inr (Some (hashHex (sha256 (utf8Encode ''42''))))"
    by (simp add: hashValue_def webCrypto_def b)
  show "hashValue webCrypto ''true'' = Inr (Some (hashHex (sha256 (utf8Encode ''true''))))"
    by (simp add: hashValue_def webCrypto_def c)
qed

lemma demo_percent:
  "progressPercent (Suc 0) 4 = 25" "progressPercent (Suc (Suc 0)) 4 = 50"
  "progressPercent (Suc (Suc (Suc 0))) 4 = 75" "progressPercent (Suc (Suc (Suc (Suc 0)))) 4 = 100"
  by code_simp+

lemma demo_totalCells: "totalCellsOf demoData (columnMappings demoApp) = 4"
  by (simp add: totalCellsOf_def demo_mappings demoData_def)

lemma demo_pass:
  "subtleDigest host = webCrypto \<Longrightarrow>
   encryptionPass host demoData demoApp =
     Inr \<lparr> cells = demoStore
                (0 := [Str (hashHex (sha256 (utf8Encode ''john''))),
                       Str (hashHex (sha256 (utf8Encode ''42''))), Num 7],
                 1 := [Null, Str (hashHex (sha256 (utf8Encode ''true''))), Str ''ops'']),
            encryptedCount = 3, processedCells = 4, progressSeq = [25, 50, 75, 100] \<rparr>"
  unfolding encryptionPass_def demo_totalCells
  by (simp add: demo_mappings runStart_def
        encryptCell_def readCell_def cellToString_def hashToCell_def Let_def
        demo_hashes demo_percent demoData_def demoStore_def
        demoApp_def [THEN arg_cong, of objects])

lemma demo_guard: "parsedData demoApp = Some demoData" "fileObj demoApp = Some demoFile"
  by (simp_all add: demoApp_def)

lemma demo_fileType: "detectFileType demoFile = Csv"
  unfolding demoFile_def by code_simp

lemma demo_filename:
  "generateDownloadFilename (fileName demoFile) (today demoHost) = ''staff_2025-10-02_encrypted.csv''"
  unfolding demoFile_def demoHost_def by code_simp

lemma demo_success_run:
  "handleEncrypt demoHost demoApp =
     demoApp\<lparr> appState := COMPLETE,
       objects := demoStore
          (0 := [Str (hashHex (sha256 (utf8Encode ''john''))),
                 Str (hashHex (sha256 (utf8Encode ''42''))), Num 7],
           1 := [Null, Str (hashHex (sha256 (utf8Encode ''true''))), Str ''ops'']),
       progressCalls := [0, 25, 50, 75, 100, 100],
       downloaded := [(\<lparr> content = [], blobType = ''text/csv;charset=utf-8;'' \<rparr>,
                       ''staff_2025-10-02_encrypted.csv'')],
       stats := \<lparr> totalRows = 2, encryptedCells = 3, duration = 40 \<rparr> \<rparr>"
proof -
  have d: "subtleDigest demoHost = webCrypto" by (simp add: demoHost_def)
  have g: "generateBlob demoHost st demoData demoFile
             = Inr \<lparr> content = [], blobType = ''text/csv;charset=utf-8;'' \<rparr>" for st
    by (simp add: generateBlob_def demo_fileType generateCSV_def demoHost_def utf8Encode_def)
  show ?thesis
    by (simp add: handleEncrypt_success [OF demo_guard demo_pass [OF d] g] demo_filename)
       (simp add: demoApp_def demoData_def demoHost_def)
qed

lemma demo_failed_run:
  "handleEncrypt failingWriterHost demoApp =
     demoApp\<lparr> appState := ERROR, errorMessage := ''unparse failed'',
       objects := demoStore
          (0 := [Str (hashHex (sha256 (utf8Encode ''john''))),
                 Str (hashHex (sha256 (utf8Encode ''42''))), Num 7],
           1 := [Null, Str (hashHex (sha256 (utf8Encode ''true''))), Str ''ops'']),
       progressCalls := [0, 25, 50, 75, 100] \<rparr>"
proof -
  have d: "subtleDigest failingWriterHost = webCrypto"
    by (simp add: failingWriterHost_def demoHost_def)
  have g: "generateBlob failingWriterHost st demoData demoFile = Inl (ErrorObject ''unparse failed'')" for st
    by (simp add: generateBlob_def demo_fileType generateCSV_def failingWriterHost_def)
  show ?thesis
    by (simp add: handleEncrypt_generator_failure [OF demo_guard demo_pass [OF d] g] errorText_def)
       (simp add: demoApp_def)
qed

section \<open>The progress values of a run\<close>

lemma runStart_progress:
  "progressSeq (runStart app) = map (\<lambda>k. progressPercent k t) [1..<Suc (processedCells (runStart app))]"
  by (simp add: runStart_def)

lemma encryptionPass_progress_Inr:
  assumes "encryptionPass host pd app = Inr s"
  shows "progressSeq s = map (\<lambda>k. progressPercent k (totalCellsOf pd (columnMappings app)))
                           [1..<Suc (totalCellsOf pd (columnMappings app))]"
proof -
  from runCells_progress_Inr [OF runStart_progress assms [unfolded encryptionPass_def]]
  show ?thesis
    by (simp add: length_filter_product totalCellsOf_def runStart_def)
qed

lemma encryptionPass_progress_Inl:
  assumes "encryptionPass host pd app = Inl (e, s)"
  shows "\<exists>k<totalCellsOf pd (columnMappings app).
           progressSeq s = map (\<lambda>k. progressPercent k (totalCellsOf pd (columnMappings app))) [1..<Suc k]"
proof -
  from runCells_progress_Inl [OF runStart_progress assms [unfolded encryptionPass_def]]
  show ?thesis
    by (auto simp: length_filter_product totalCellsOf_def runStart_def)
qed

lemma progress_values:
  assumes "k \<le> t"
  shows "(\<forall>v\<in>set (map (\<lambda>j. progressPercent j t) [1..<Suc k]). 0 \<le> v \<and> v \<le> 100)
         \<and> sorted (map (\<lambda>j. progressPercent j t) [1..<Suc k])"
proof
  show "\<forall>v\<in>set (map (\<lambda>j. progressPercent j t) [1..<Suc k]). 0 \<le> v \<and> v \<le> 100"
  proof
    fix v assume "v \<in> set (map (\<lambda>j. progressPercent j t) [1..<Suc k])"
    then obtain j where j: "1 \<le> j" "j \<le> k" and v: "v = progressPercent j t" by auto
    with assms have "j \<le> t" "0 < t" by simp_all
    then show "0 \<le> v \<and> v \<le> 100" unfolding v by (rule progressPercent_range)
  qed
  have "sorted_wrt (\<le>) [1..<Suc k]" by (rule sorted_upt)
  then have "sorted_wrt (\<lambda>x y. progressPercent x t \<le> progressPercent y t) [1..<Suc k]"
    by (rule sorted_wrt_mono_rel [rotated]) (rule progressPercent_mono)
  then show "sorted (map (\<lambda>j. progressPercent j t) [1..<Suc k])"
    by (simp add: sorted_map)
qed

lemma sorted_progress_run:
  assumes "\<forall>v\<in>set seq. 0 \<le> v \<and> v \<le> (100::int)" "sorted seq"
  shows "sorted (0 # seq)" "sorted (0 # seq @ [100])"
  using assms by (auto simp: sorted_append)

text \<open>
  Claim C6, as amended. The values that a run passes to \<^verbatim>\<open>setProgress\<close> lie between 0 and 100
  and never decrease, and a run that completes (also on a table without rows) ends with exactly
  100. The converse fails: a run can report 100 and then fail.
\<close>

theorem handleEncrypt_progress_sequence:
  assumes "parsedData app = Some pd" and "fileObj app = Some f"
  shows "\<exists>seq. progressCalls (handleEncrypt host app) = progressCalls app @ seq
           \<and> (\<forall>v\<in>set seq. 0 \<le> v \<and> v \<le> 100)
           \<and> sorted seq
           \<and> (appState (handleEncrypt host app) = COMPLETE \<longrightarrow> last seq = 100)"
proof -
  let ?t = "totalCellsOf pd (columnMappings app)"
  let ?f = "\<lambda>k. progressPercent k ?t"
  from assms show ?thesis
  proof (cases rule: handleEncrypt_outcomes [where host = host])
    case (hash_failure e s)
    from encryptionPass_progress_Inl [OF hash_failure] obtain k where
      k: "k < ?t" and seq: "progressSeq s = map ?f [1..<Suc k]" by blast
    from k have "k \<le> ?t" by simp
    from progress_values [OF this] sorted_progress_run(1) [of "map ?f [1..<Suc k]"]
    have "(\<forall>v\<in>set (0 # progressSeq s). 0 \<le> v \<and> v \<le> 100) \<and> sorted (0 # progressSeq s)"
      unfolding seq by auto
    then show ?thesis
      by (intro exI [of _ "0 # progressSeq s"])
         (simp add: handleEncrypt_hash_failure [OF assms hash_failure])
  next
    case (generator_failure e s)
    from progress_values [of ?t ?t] sorted_progress_run(1) [of "map ?f [1..<Suc ?t]"]
    have "(\<forall>v\<in>set (0 # progressSeq s). 0 \<le> v \<and> v \<le> 100) \<and> sorted (0 # progressSeq s)"
      unfolding encryptionPass_progress_Inr [OF generator_failure(1)] by auto
    then show ?thesis
      by (intro exI [of _ "0 # progressSeq s"])
         (simp add: handleEncrypt_generator_failure [OF assms generator_failure])
  next
    case (success s blob)
    from progress_values [of ?t ?t] sorted_progress_run(2) [of "map ?f [1..<Suc ?t]"]
    have "(\<forall>v\<in>set (0 # progressSeq s @ [100]). 0 \<le> v \<and> v \<le> 100)
          \<and> sorted (0 # progressSeq s @ [100])"
      unfolding encryptionPass_progress_Inr [OF success(1)] by auto
    then show ?thesis
      by (intro exI [of _ "0 # progressSeq s @ [100]"])
         (simp add: handleEncrypt_success [OF assms success])
  qed
qed

theorem handleEncrypt_progress_sequence_witness:
  "parsedData demoApp = Some demoData \<and> fileObj demoApp = Some demoFile
   \<and> appState (handleEncrypt demoHost demoApp) = COMPLETE
   \<and> progressCalls (handleEncrypt demoHost demoApp) = [0, 25, 50, 75, 100, 100]
   \<and> (\<exists>seq. progressCalls (handleEncrypt demoHost demoApp) = progressCalls demoApp @ seq
          \<and> (\<forall>v\<in>set seq. 0 \<le> v \<and> v \<le> 100) \<and> sorted seq \<and> last seq = 100)"
proof -
  have c: "appState (handleEncrypt demoHost demoApp) = COMPLETE"
    by (simp add: demo_success_run)
  have p: "progressCalls (handleEncrypt demoHost demoApp) = [0, 25, 50, 75, 100, 100]"
    by (simp add: demo_success_run)
  from handleEncrypt_progress_sequence [OF demo_guard, of demoHost] c
  have "\<exists>seq. progressCalls (handleEncrypt demoHost demoApp) = progressCalls demoApp @ seq
          \<and> (\<forall>v\<in>set seq. 0 \<le> v \<and> v \<le> 100) \<and> sorted seq \<and> last seq = 100"
    by blast
  with c p demo_guard show ?thesis by blast
qed

text \<open>The run on the two-row table whose CSV writer throws: all four target cells are
  processed, 100 is reported, and the run ends in the error state.\<close>

theorem progress_100_before_failure:
  "progressCalls (handleEncrypt failingWriterHost demoApp) = [0, 25, 50, 75, 100]
   \<and> appState (handleEncrypt failingWriterHost demoApp) = ERROR"
  by (simp add: demo_failed_run)

section \<open>The store after a run\<close>

lemma encryptCell_other_row:
  "encryptCell host t a m s = Inr s' \<Longrightarrow> b \<noteq> a \<Longrightarrow> cells s' b = cells s b"
  by (cases "isTarget m")
     (auto simp: encryptCell_target encryptCell_not_target Let_def split: if_splits sum.splits)

lemma encryptCell_target_ok:
  "isTarget m \<Longrightarrow> encryptCell host t a m s = Inr s' \<Longrightarrow>
   \<not> isEmptyCell (cellAt (cells s) a (columnIndex m)) \<Longrightarrow>
     \<exists>h. hashValue (subtleDigest host) (cellToString (cellAt (cells s) a (columnIndex m))) = Inr h"
  by (auto simp: encryptCell_target Let_def cellAt_def split: if_splits sum.splits)

lemma runCells_other_rows:
  "runCells host t L s = Inr s' \<Longrightarrow> b \<notin> fst ` set L \<Longrightarrow> cells s' b = cells s b"
proof (induction L arbitrary: s)
  case Nil
  then show ?case by simp
next
  case (Cons p L)
  obtain a m where p: "p = (a, m)" by (cases p)
  from Cons.prems(1) obtain s1 where s1: "encryptCell host t a m s = Inr s1"
    and rest: "runCells host t L s1 = Inr s'"
    by (auto simp: p split: sum.splits)
  from Cons.prems(2) have "b \<noteq> a" "b \<notin> fst ` set L" by (auto simp: p)
  with Cons.IH [OF rest] encryptCell_other_row [OF s1] show ?case by simp
qed

lemma runCells_hashes_ok:
  "distinct (targetCells L) \<Longrightarrow> runCells host t L s = Inr s' \<Longrightarrow>
   (b, j) \<in> set (targetCells L) \<Longrightarrow> \<not> isEmptyCell (cellAt (cells s) b j) \<Longrightarrow>
     \<exists>h. hashValue (subtleDigest host) (cellToString (cellAt (cells s) b j)) = Inr h"
proof (induction L arbitrary: s)
  case Nil
  then show ?case by (simp add: targetCells_def)
next
  case (Cons p L)
  obtain a m where p: "p = (a, m)" by (cases p)
  from Cons.prems(2) obtain s1 where s1: "encryptCell host t a m s = Inr s1"
    and rest: "runCells host t L s1 = Inr s'"
    by (auto simp: p split: sum.splits)
  show ?case
  proof (cases "isTarget m \<and> (b, j) = (a, columnIndex m)")
    case True
    with encryptCell_target_ok [OF _ s1] Cons.prems(4) show ?thesis by simp
  next
    case False
    with Cons.prems(3) have mem: "(b, j) \<in> set (targetCells L)"
      by (auto simp: p targetCells_Cons split: if_splits)
    from Cons.prems(1) have dist: "distinct (targetCells L)"
      by (simp add: p targetCells_Cons split: if_splits)
    from False have "(b, j) \<noteq> (a, columnIndex m) \<or> \<not> isTarget m" by blast
    from encryptCell_other [OF s1 this] Cons.IH [OF dist rest mem] Cons.prems(4)
    show ?thesis by simp
  qed
qed

lemma targetCells_append: "targetCells (L1 @ L2) = targetCells L1 @ targetCells L2"
  by (simp add: targetCells_def)

lemma runCells_end_frame:
  assumes "s' = passEnd (runCells host t L s)"
  shows "length (cells s' b) = length (cells s b)"
    and "(b, j) \<notin> set (targetCells L) \<Longrightarrow> cellAt (cells s') b j = cellAt (cells s) b j"
    and "isEmptyCell (cellAt (cells s) b j) \<Longrightarrow> cellAt (cells s') b j = cellAt (cells s) b j"
    and "b \<notin> fst ` set L \<Longrightarrow> cells s' b = cells s b"
proof -
  have "\<exists>L1 L2. L = L1 @ L2 \<and> runCells host t L1 s = Inr s'"
  proof (cases "runCells host t L s")
    case (Inr s1)
    with assms have "L = L @ [] \<and> runCells host t L s = Inr s'" by (simp add: passEnd_def)
    then show ?thesis by blast
  next
    case (Inl r)
    obtain e s1 where r: "r = (e, s1)" by (cases r)
    with Inl assms have "s' = s1" by (simp add: passEnd_def)
    with runCells_Inl_prefix [OF Inl [unfolded r]] show ?thesis by blast
  qed
  then obtain L1 L2 where L: "L = L1 @ L2" and run: "runCells host t L1 s = Inr s'" by blast
  show "length (cells s' b) = length (cells s b)"
    using run by (rule runCells_length)
  show "cellAt (cells s') b j = cellAt (cells s) b j" if "(b, j) \<notin> set (targetCells L)"
    using that runCells_frame [OF run, of b j] by (simp add: L targetCells_append)
  show "cellAt (cells s') b j = cellAt (cells s) b j" if "isEmptyCell (cellAt (cells s) b j)"
    using run that by (rule runCells_empty_kept)
  show "cells s' b = cells s b" if "b \<notin> fst ` set L"
    using that runCells_other_rows [OF run, of b] by (simp add: L image_Un)
qed

lemma handleEncrypt_objects:
  assumes "parsedData app = Some pd" "fileObj app = Some f"
  shows "objects (handleEncrypt host app) = cells (passEnd (encryptionPass host pd app))"
  using assms
proof (cases rule: handleEncrypt_outcomes [where host = host])
  case (hash_failure e s)
  then show ?thesis by (simp add: handleEncrypt_hash_failure [OF assms hash_failure] passEnd_def)
next
  case (generator_failure e s)
  then show ?thesis
    by (simp add: handleEncrypt_generator_failure [OF assms generator_failure] passEnd_def)
next
  case (success s blob)
  then show ?thesis by (simp add: handleEncrypt_success [OF assms success] passEnd_def)
qed

lemma handleEncrypt_complete:
  assumes "parsedData app = Some pd" "fileObj app = Some f"
    and "appState (handleEncrypt host app) = COMPLETE"
  obtains s blob where "encryptionPass host pd app = Inr s"
    "generateBlob host (cells s) pd f = Inr blob"
  using assms(1,2)
proof (cases rule: handleEncrypt_outcomes [where host = host])
  case (hash_failure e s)
  with assms(3) show ?thesis by (simp add: handleEncrypt_hash_failure [OF assms(1,2) hash_failure])
next
  case (generator_failure e s)
  with assms(3) show ?thesis
    by (simp add: handleEncrypt_generator_failure [OF assms(1,2) generator_failure])
next
  case (success s blob)
  then show ?thesis using that by blast
qed

lemma runStart_cells: "cells (runStart app) = objects app"
  by (simp add: runStart_def)

section \<open>Strings of numbers and booleans\<close>

lemma digitChar_decimal_not_ws: "d < 10 \<Longrightarrow> \<not> isWhiteSpace (digitChar d)"
  by (simp add: digitChar_def isWhiteSpace_def)

lemma natToString10_last: "natToString 10 n \<noteq> [] \<and> last (natToString 10 n) = digitChar (n mod 10)"
  by (subst (1 2) natToString.simps) simp

lemma natToString10_not_ws: "\<exists>c\<in>set (natToString 10 n). \<not> isWhiteSpace c"
proof -
  have "last (natToString 10 n) \<in> set (natToString 10 n)"
    using natToString10_last [of n] by (intro last_in_set) blast
  moreover have "\<not> isWhiteSpace (last (natToString 10 n))"
    using natToString10_last [of n] by (simp add: digitChar_decimal_not_ws)
  ultimately show ?thesis by blast
qed

lemma cellToString_number_boolean:
  "v = Num n \<or> v = Bool b \<Longrightarrow> toLowerCase (trim (cellToString v)) \<noteq> []"
proof -
  assume "v = Num n \<or> v = Bool b"
  then have "\<exists>c\<in>set (cellToString v). \<not> isWhiteSpace c"
    using natToString10_not_ws [of "nat n"] natToString10_not_ws [of "nat (- n)"]
    by (auto simp: cellToString_def intToString_def isWhiteSpace_def)
  then show ?thesis by (simp add: normalized_empty_iff)
qed

lemma cellToString_not_blank:
  "\<not> isEmptyCell v \<Longrightarrow> \<not> isBlankString v \<Longrightarrow> toLowerCase (trim (cellToString v)) \<noteq> []"
proof (cases v)
  case (Str s)
  assume "\<not> isEmptyCell v" "\<not> isBlankString v"
  with Str have "\<exists>c\<in>set s. \<not> isWhiteSpace c"
    by (auto simp: isEmptyCell_def isBlankString_def)
  with Str show ?thesis by (simp add: normalized_empty_iff cellToString_def)
next
  case (Num n)
  then show ?thesis using cellToString_number_boolean by blast
next
  case (Bool b)
  then show ?thesis using cellToString_number_boolean by blast
qed (simp_all add: isEmptyCell_def)

lemma encryptedValue_digest:
  assumes "\<not> isEmptyCell v" "toLowerCase (trim (cellToString v)) \<noteq> []"
    and "hashValue (subtleDigest host) (cellToString v) = Inr h"
  shows "\<exists>hb. subtleDigest host (utf8Encode (toLowerCase (trim (cellToString v)))) = Inr hb
            \<and> encryptedValue host v = Str (hashHex hb)"
  using assms
  by (auto simp: encryptedValue_def hashValue_def Let_def hashToCell_def split: sum.splits)

lemma set_targetCells_product:
  "(b, j) \<in> set (targetCells (List.product rs ms)) \<longleftrightarrow> b \<in> set rs \<and> j \<in> set (targetIndices ms)"
  by (simp add: targetCells_product)

lemma encryptionPass_result:
  assumes "encryptionPass host pd app = Inr s"
    and "distinct (rows pd)" "distinct (targetIndices (columnMappings app))"
    and "a \<in> set (rows pd)" "i \<in> set (targetIndices (columnMappings app))"
  shows "cellAt (cells s) a i = encryptedValue host (cellAt (objects app) a i)"
    and "\<not> isEmptyCell (cellAt (objects app) a i) \<Longrightarrow>
           \<exists>h. hashValue (subtleDigest host) (cellToString (cellAt (objects app) a i)) = Inr h"
    and "encryptedCount s = length (filter (\<lambda>(b, j). \<not> isEmptyCell (cellAt (objects app) b j))
                                       (List.product (rows pd) (targetIndices (columnMappings app))))"
proof -
  let ?L = "List.product (rows pd) (columnMappings app)"
  have d: "distinct (targetCells ?L)"
    using assms(2,3) by (simp add: targetCells_product distinct_product)
  have m: "(a, i) \<in> set (targetCells ?L)"
    using assms(4,5) by (simp add: set_targetCells_product)
  note run = assms(1) [unfolded encryptionPass_def]
  show "cellAt (cells s) a i = encryptedValue host (cellAt (objects app) a i)"
    using runCells_result [OF d run m] by (simp add: runStart_cells)
  show "\<exists>h. hashValue (subtleDigest host) (cellToString (cellAt (objects app) a i)) = Inr h"
    if "\<not> isEmptyCell (cellAt (objects app) a i)"
    using runCells_hashes_ok [OF d run m] that by (simp add: runStart_cells)
  show "encryptedCount s = length (filter (\<lambda>(b, j). \<not> isEmptyCell (cellAt (objects app) b j))
                                       (List.product (rows pd) (targetIndices (columnMappings app))))"
    using runCells_count [OF d run] by (simp add: runStart_cells targetCells_product runStart_def)
qed

lemma findTargetColumns_distinct_targets: "distinct (targetIndices (findTargetColumns hs))"
proof -
  have "distinct (map columnIndex (findTargetColumns hs))"
    by (simp add: findTargetColumns_columnIndex)
  then show ?thesis
    unfolding targetIndices_def by (rule distinct_map_filter)
qed

section \<open>Cells after a run of handleEncrypt\<close>

lemma demo_distinct:
  "distinct (rows demoData)" "targetIndices (columnMappings demoApp) = [0, 1]"
  by (simp_all add: demoData_def targetIndices_def demo_mappings)

lemma demo_cells:
  "cellAt (objects demoApp) 0 0 = Str ''  JOHN  ''" "cellAt (objects demoApp) 0 1 = Num 42"
  "cellAt (objects demoApp) 0 2 = Num 7" "cellAt (objects demoApp) 1 0 = Null"
  "cellAt (objects demoApp) 1 1 = Bool True" "cellAt (objects demoApp) 1 2 = Str ''ops''"
  by (simp_all add: demoApp_def demoStore_def cellAt_def readCell_def)

lemma demo_cells_after:
  "cellAt (objects (handleEncrypt demoHost demoApp)) 0 0 = Str (hashHex (sha256 (utf8Encode ''john'')))"
  "cellAt (objects (handleEncrypt demoHost demoApp)) 0 1 = Str (hashHex (sha256 (utf8Encode ''42'')))"
  "cellAt (objects (handleEncrypt demoHost demoApp)) 0 2 = Num 7"
  "cellAt (objects (handleEncrypt demoHost demoApp)) 1 0 = Null"
  "cellAt (objects (handleEncrypt demoHost demoApp)) 1 1 = Str (hashHex (sha256 (utf8Encode ''true'')))"
  "cellAt (objects (handleEncrypt demoHost demoApp)) 1 2 = Str ''ops''"
  by (simp_all add: demo_success_run cellAt_def readCell_def)

text \<open>
  Claim C4, as amended. In every run the row arrays keep their lengths, and every cell outside the
  target columns, and every \<^verbatim>\<open>undefined\<close>, \<^verbatim>\<open>null\<close> or empty-string cell, is afterwards what it
  was, with its type. The cells that change are the non-empty cells of the target columns, and
  they change whatever their type: in a run that completes, a number or boolean cell in a target
  column is replaced by the digest string of its \<^verbatim>\<open>String()\<close> text.
\<close>

theorem handleEncrypt_cells_kept:
  assumes "parsedData app = Some pd" and "fileObj app = Some f"
  shows "length (objects (handleEncrypt host app) a) = length (objects app a)
     \<and> (a \<notin> set (rows pd) \<or> i \<notin> set (targetIndices (columnMappings app))
          \<or> isEmptyCell (cellAt (objects app) a i)
          \<longrightarrow> cellAt (objects (handleEncrypt host app)) a i = cellAt (objects app) a i)
     \<and> (appState (handleEncrypt host app) = COMPLETE
          \<and> distinct (rows pd) \<and> distinct (targetIndices (columnMappings app))
          \<and> a \<in> set (rows pd) \<and> i \<in> set (targetIndices (columnMappings app))
          \<and> (cellAt (objects app) a i = Num n \<or> cellAt (objects app) a i = Bool b)
          \<longrightarrow> (\<exists>hb. subtleDigest host
                        (utf8Encode (toLowerCase (trim (cellToString (cellAt (objects app) a i))))) = Inr hb
                  \<and> cellAt (objects (handleEncrypt host app)) a i = Str (hashHex hb)))"
proof (intro conjI impI)
  note obj = handleEncrypt_objects [OF assms, of host]
  note frame = runCells_end_frame [OF refl, where host = host
      and t = "totalCellsOf pd (columnMappings app)"
      and L = "List.product (rows pd) (columnMappings app)" and s = "runStart app",
      folded encryptionPass_def, unfolded runStart_cells]
  show "length (objects (handleEncrypt host app) a) = length (objects app a)"
    unfolding obj by (rule frame(1))
  show "cellAt (objects (handleEncrypt host app)) a i = cellAt (objects app) a i"
    if "a \<notin> set (rows pd) \<or> i \<notin> set (targetIndices (columnMappings app))
          \<or> isEmptyCell (cellAt (objects app) a i)"
    using that frame(2) [of a i] frame(3) [of a i]
    unfolding obj by (auto simp: set_targetCells_product)
  show "\<exists>hb. subtleDigest host
                 (utf8Encode (toLowerCase (trim (cellToString (cellAt (objects app) a i))))) = Inr hb
            \<and> cellAt (objects (handleEncrypt host app)) a i = Str (hashHex hb)"
    if h: "appState (handleEncrypt host app) = COMPLETE
          \<and> distinct (rows pd) \<and> distinct (targetIndices (columnMappings app))
          \<and> a \<in> set (rows pd) \<and> i \<in> set (targetIndices (columnMappings app))
          \<and> (cellAt (objects app) a i = Num n \<or> cellAt (objects app) a i = Bool b)"
  proof -
    from h have c: "appState (handleEncrypt host app) = COMPLETE" by simp
    from assms c obtain s blob where pass: "encryptionPass host pd app = Inr s"
      and gen: "generateBlob host (cells s) pd f = Inr blob"
      by (rule handleEncrypt_complete)
    let ?v = "cellAt (objects app) a i"
    from h have nb: "?v = Num n \<or> ?v = Bool b" by simp
    then have ne: "\<not> isEmptyCell ?v" by (auto simp: isEmptyCell_def)
    from nb have norm: "toLowerCase (trim (cellToString ?v)) \<noteq> []"
      by (rule cellToString_number_boolean)
    from h have pre: "distinct (rows pd)" "distinct (targetIndices (columnMappings app))"
      "a \<in> set (rows pd)" "i \<in> set (targetIndices (columnMappings app))" by simp_all
    from encryptionPass_result(2) [OF pass pre ne] obtain hv where
      hv: "hashValue (subtleDigest host) (cellToString ?v) = Inr hv" by blast
    from encryptedValue_digest [OF ne norm hv] encryptionPass_result(1) [OF pass pre]
    show ?thesis
      by (simp add: handleEncrypt_success [OF assms pass gen])
  qed
qed

theorem handleEncrypt_cells_kept_witness:
  "parsedData demoApp = Some demoData \<and> fileObj demoApp = Some demoFile
   \<and> 2 \<notin> set (targetIndices (columnMappings demoApp))
   \<and> cellAt (objects demoApp) 0 2 = Num 7
   \<and> cellAt (objects (handleEncrypt demoHost demoApp)) 0 2 = Num 7
   \<and> appState (handleEncrypt demoHost demoApp) = COMPLETE
   \<and> cellAt (objects demoApp) 1 1 = Bool True
   \<and> (\<exists>hb. cellAt (objects (handleEncrypt demoHost demoApp)) 1 1 = Str (hashHex hb))"
proof -
  have c: "appState (handleEncrypt demoHost demoApp) = COMPLETE" by (simp add: demo_success_run)
  have nt: "2 \<notin> set (targetIndices (columnMappings demoApp))" by (simp add: demo_distinct)
  from handleEncrypt_cells_kept [OF demo_guard, of demoHost 0 2] nt
  have k: "cellAt (objects (handleEncrypt demoHost demoApp)) 0 2 = cellAt (objects demoApp) 0 2"
    by blast
  have pre: "appState (handleEncrypt demoHost demoApp) = COMPLETE
      \<and> distinct (rows demoData) \<and> distinct (targetIndices (columnMappings demoApp))
      \<and> 1 \<in> set (rows demoData) \<and> 1 \<in> set (targetIndices (columnMappings demoApp))
      \<and> (cellAt (objects demoApp) 1 1 = Num 0 \<or> cellAt (objects demoApp) 1 1 = Bool True)"
    using c demo_distinct demo_cells(5) by (simp add: demoData_def)
  from handleEncrypt_cells_kept [OF demo_guard, of demoHost 1 1 0 True] pre
  have "\<exists>hb. cellAt (objects (handleEncrypt demoHost demoApp)) 1 1 = Str (hashHex hb)"
    by blast
  with k c nt demo_guard demo_cells(3,5) show ?thesis by simp
qed

text \<open>On the two-row table the boolean cell in the Phone column becomes a string.\<close>

theorem boolean_cell_retyped:
  "isTarget (columnMappings demoApp ! 1) \<and> columnIndex (columnMappings demoApp ! 1) = 1
   \<and> cellAt (objects demoApp) 1 1 = Bool True
   \<and> cellAt (objects (handleEncrypt demoHost demoApp)) 1 1
        = Str (hashHex (sha256 (utf8Encode ''true'')))"
  using demo_cells(5) demo_cells_after(5) by (simp add: demo_mappings)

lemma encryptionPass_count:
  assumes "encryptionPass host pd app = Inr s"
    and "distinct (rows pd)" "distinct (targetIndices (columnMappings app))"
  shows "encryptedCount s = length (filter (\<lambda>(b, j). \<not> isEmptyCell (cellAt (objects app) b j))
                                       (List.product (rows pd) (targetIndices (columnMappings app))))"
proof -
  have d: "distinct (targetCells (List.product (rows pd) (columnMappings app)))"
    using assms(2,3) by (simp add: targetCells_product distinct_product)
  from runCells_count [OF d assms(1) [unfolded encryptionPass_def]] show ?thesis
    by (simp add: runStart_cells targetCells_product runStart_def)
qed

text \<open>
  Claim C1, as amended. Take a run that completes, on a table whose row arrays are distinct objects
  and whose target mappings have distinct column indices. For every row and every target column:
  an \<^verbatim>\<open>undefined\<close>, \<^verbatim>\<open>null\<close> or empty-string cell is left as it was; a cell whose \<^verbatim>\<open>String()\<close> text
  is not empty after trimming and lower-casing (a string, a number or a boolean) is replaced by the
  digest of that normalized text. Where no target cell is a white-space-only string,
  \<^verbatim>\<open>encryptedCells\<close> is the number of replaced cells: each counts once, the cells left as they
  were count nothing. The code keeps no counter of skipped cells.
\<close>

theorem handleEncrypt_target_cells:
  assumes "parsedData app = Some pd" and "fileObj app = Some f"
    and "appState (handleEncrypt host app) = COMPLETE"
    and "distinct (rows pd)" and "distinct (targetIndices (columnMappings app))"
  shows "(\<forall>a\<in>set (rows pd). \<forall>m\<in>set (columnMappings app). isTarget m \<longrightarrow>
            (isEmptyCell (cellAt (objects app) a (columnIndex m)) \<longrightarrow>
               cellAt (objects (handleEncrypt host app)) a (columnIndex m)
                 = cellAt (objects app) a (columnIndex m))
          \<and> (\<not> isEmptyCell (cellAt (objects app) a (columnIndex m))
               \<and> \<not> isBlankString (cellAt (objects app) a (columnIndex m)) \<longrightarrow>
               (\<exists>hb. subtleDigest host (utf8Encode (toLowerCase (trim (cellToString
                          (cellAt (objects app) a (columnIndex m)))))) = Inr hb
                   \<and> cellAt (objects (handleEncrypt host app)) a (columnIndex m) = Str (hashHex hb))))
     \<and> ((\<forall>(a, i)\<in>set (List.product (rows pd) (targetIndices (columnMappings app))).
            \<not> isBlankString (cellAt (objects app) a i)) \<longrightarrow>
          encryptedCells (stats (handleEncrypt host app))
            = length (filter (\<lambda>(a, i). \<not> isEmptyCell (cellAt (objects app) a i))
                        (List.product (rows pd) (targetIndices (columnMappings app)))))"
proof -
  from assms(1-3) obtain s blob where pass: "encryptionPass host pd app = Inr s"
    and gen: "generateBlob host (cells s) pd f = Inr blob"
    by (rule handleEncrypt_complete)
  note after = handleEncrypt_success [OF assms(1,2) pass gen]
  have cell: "(isEmptyCell (cellAt (objects app) a (columnIndex m)) \<longrightarrow>
               cellAt (objects (handleEncrypt host app)) a (columnIndex m)
                 = cellAt (objects app) a (columnIndex m))
          \<and> (\<not> isEmptyCell (cellAt (objects app) a (columnIndex m))
               \<and> \<not> isBlankString (cellAt (objects app) a (columnIndex m)) \<longrightarrow>
               (\<exists>hb. subtleDigest host (utf8Encode (toLowerCase (trim (cellToString
                          (cellAt (objects app) a (columnIndex m)))))) = Inr hb
                   \<and> cellAt (objects (handleEncrypt host app)) a (columnIndex m) = Str (hashHex hb)))"
    if a: "a \<in> set (rows pd)" and m: "m \<in> set (columnMappings app)" "isTarget m" for a m
  proof -
    let ?v = "cellAt (objects app) a (columnIndex m)"
    from m have i: "columnIndex m \<in> set (targetIndices (columnMappings app))"
      by (auto simp: targetIndices_def)
    note res = encryptionPass_result [OF pass assms(4,5) a i]
    have final: "cellAt (objects (handleEncrypt host app)) a (columnIndex m) = encryptedValue host ?v"
      using res(1) by (simp add: after)
    show ?thesis
    proof (intro conjI impI)
      assume "isEmptyCell ?v"
      then show "cellAt (objects (handleEncrypt host app)) a (columnIndex m) = ?v"
        by (simp add: final encryptedValue_def)
    next
      assume nb: "\<not> isEmptyCell ?v \<and> \<not> isBlankString ?v"
      then have norm: "toLowerCase (trim (cellToString ?v)) \<noteq> []"
        by (simp add: cellToString_not_blank)
      from nb res(2) obtain hv where "hashValue (subtleDigest host) (cellToString ?v) = Inr hv"
        by blast
      from encryptedValue_digest [OF _ norm this] nb
      show "\<exists>hb. subtleDigest host (utf8Encode (toLowerCase (trim (cellToString ?v)))) = Inr hb
              \<and> cellAt (objects (handleEncrypt host app)) a (columnIndex m) = Str (hashHex hb)"
        by (simp add: final)
    qed
  qed
  have count: "encryptedCells (stats (handleEncrypt host app))
            = length (filter (\<lambda>(a, i). \<not> isEmptyCell (cellAt (objects app) a i))
                        (List.product (rows pd) (targetIndices (columnMappings app))))"
    using encryptionPass_count [OF pass assms(4,5)] by (simp add: after)
  from cell count show ?thesis by blast
qed


theorem handleEncrypt_target_cells_witness:
  "parsedData demoApp = Some demoData \<and> fileObj demoApp = Some demoFile
   \<and> appState (handleEncrypt demoHost demoApp) = COMPLETE
   \<and> distinct (rows demoData) \<and> distinct (targetIndices (columnMappings demoApp))
   \<and> cellAt (objects demoApp) 1 0 = Null
   \<and> cellAt (objects (handleEncrypt demoHost demoApp)) 1 0 = Null
   \<and> cellAt (objects demoApp) 0 0 = Str ''  JOHN  ''
   \<and> (\<exists>hb. webCrypto (utf8Encode (toLowerCase (trim ''  JOHN  ''))) = Inr hb
          \<and> cellAt (objects (handleEncrypt demoHost demoApp)) 0 0 = Str (hashHex hb))
   \<and> encryptedCells (stats (handleEncrypt demoHost demoApp)) = 3"
proof -
  let ?m = "\<lparr> originalName = ''First Name'', normalizedName = ''firstname'', isTarget = True,
              targetType = Some (TargetType FirstName), columnIndex = 0 \<rparr>"
  have c: "appState (handleEncrypt demoHost demoApp) = COMPLETE" by (simp add: demo_success_run)
  have d2: "distinct (targetIndices (columnMappings demoApp))" by (simp add: demo_distinct)
  note T = handleEncrypt_target_cells [OF demo_guard c demo_distinct(1) d2]
  have m: "?m \<in> set (columnMappings demoApp)" "isTarget ?m" "columnIndex ?m = 0"
    by (simp_all add: demo_mappings)
  have r: "0 \<in> set (rows demoData)" "1 \<in> set (rows demoData)" by (simp_all add: demoData_def)
  have e: "isEmptyCell (cellAt (objects demoApp) 1 0)"
    "\<not> isEmptyCell (cellAt (objects demoApp) 0 0) \<and> \<not> isBlankString (cellAt (objects demoApp) 0 0)"
    using demo_cells(1,4) by (simp_all add: isEmptyCell_def isBlankString_def isWhiteSpace_def)
  from T r(2) m e(1) have k: "cellAt (objects (handleEncrypt demoHost demoApp)) 1 0
      = cellAt (objects demoApp) 1 0"
    by (metis (no_types, lifting))
  from T r(1) m e(2) have h: "\<exists>hb. subtleDigest demoHost (utf8Encode (toLowerCase (trim (cellToString
                          (cellAt (objects demoApp) 0 0))))) = Inr hb
                   \<and> cellAt (objects (handleEncrypt demoHost demoApp)) 0 0 = Str (hashHex hb)"
    by (metis (no_types, lifting))
  have nb: "\<forall>(a, i)\<in>set (List.product (rows demoData) (targetIndices (columnMappings demoApp))).
              \<not> isBlankString (cellAt (objects demoApp) a i)"
    using demo_cells by (simp add: demo_distinct demoData_def isBlankString_def isWhiteSpace_def)
  with T have "encryptedCells (stats (handleEncrypt demoHost demoApp))
      = length (filter (\<lambda>(a, i). \<not> isEmptyCell (cellAt (objects demoApp) a i))
                  (List.product (rows demoData) (targetIndices (columnMappings demoApp))))"
    by blast
  also have "\<dots> = 3"
    using demo_cells by (simp add: demo_distinct demoData_def isEmptyCell_def)
  finally have n: "encryptedCells (stats (handleEncrypt demoHost demoApp)) = 3" .
  from h have h': "\<exists>hb. webCrypto (utf8Encode (toLowerCase (trim ''  JOHN  ''))) = Inr hb
          \<and> cellAt (objects (handleEncrypt demoHost demoApp)) 0 0 = Str (hashHex hb)"
    using demo_cells(1) by (simp add: cellToString_def demoHost_def)
  from k n h' c d2 demo_distinct(1) demo_guard demo_cells(1,4) show ?thesis by simp
qed

text \<open>On the two-row table the number cell in the Phone column is no string, yet it is replaced by
  a digest and counted: three cells are counted, the string, the number and the boolean.\<close>

theorem number_cell_hashed:
  "isTarget (columnMappings demoApp ! 1) \<and> columnIndex (columnMappings demoApp ! 1) = 1
   \<and> cellAt (objects demoApp) 0 1 = Num 42
   \<and> cellAt (objects (handleEncrypt demoHost demoApp)) 0 1 = Str (hashHex (sha256 (utf8Encode ''42'')))
   \<and> encryptedCells (stats (handleEncrypt demoHost demoApp)) = 3"
  using demo_cells(2) demo_cells_after(2) by (simp add: demo_mappings demo_success_run)

section \<open>Failure, sharing and determinism\<close>

lemma handleEncrypt_parsedData: "parsedData (handleEncrypt host app) = parsedData app"
proof (cases "parsedData app")
  case None
  then show ?thesis by (simp add: handleEncrypt_no_data)
next
  case (Some pd)
  show ?thesis
  proof (cases "fileObj app")
    case None
    then show ?thesis by (simp add: handleEncrypt_no_data)
  next
    case f: (Some f)
    from Some f show ?thesis
    proof (cases rule: handleEncrypt_outcomes [where host = host])
      case (hash_failure e s)
      then show ?thesis by (simp add: handleEncrypt_hash_failure [OF Some f hash_failure])
    next
      case (generator_failure e s)
      then show ?thesis
        by (simp add: handleEncrypt_generator_failure [OF Some f generator_failure])
    next
      case (success s blob)
      then show ?thesis by (simp add: handleEncrypt_success [OF Some f success])
    qed
  qed
qed

text \<open>What a failed run leaves: the error state, no download and the statistics of before.\<close>

lemma handleEncrypt_failure_effects:
  assumes "parsedData app = Some pd" "fileObj app = Some f"
    and "appState (handleEncrypt host app) \<noteq> COMPLETE"
  shows "appState (handleEncrypt host app) = ERROR
     \<and> downloaded (handleEncrypt host app) = downloaded app
     \<and> stats (handleEncrypt host app) = stats app"
  using assms(1,2)
proof (cases rule: handleEncrypt_outcomes [where host = host])
  case (hash_failure e s)
  then show ?thesis by (simp add: handleEncrypt_hash_failure [OF assms(1,2) hash_failure])
next
  case (generator_failure e s)
  then show ?thesis
    by (simp add: handleEncrypt_generator_failure [OF assms(1,2) generator_failure])
next
  case (success s blob)
  with assms(3) show ?thesis by (simp add: handleEncrypt_success [OF assms(1,2) success])
qed

text \<open>
  Claim C5. When hashing or assembly throws, no file is produced and the statistics are not
  set, and the claim adds that the partly transformed table is discarded, so that the state is
  that of before the run. The code writes the digests into the row arrays of \<^verbatim>\<open>parsedData\<close>
  itself (the copy made for the run is a copy of the outer array only): in the run on the two-row
  table whose CSV writer throws, the table the component holds has its target cells replaced.
\<close>

theorem failed_run_keeps_written_cells:
  "appState (handleEncrypt failingWriterHost demoApp) = ERROR
   \<and> downloaded (handleEncrypt failingWriterHost demoApp) = []
   \<and> stats (handleEncrypt failingWriterHost demoApp) = stats demoApp
   \<and> parsedData (handleEncrypt failingWriterHost demoApp) = parsedData demoApp
   \<and> map (objects demoApp) (rows demoData)
        = [[Str ''  JOHN  '', Num 42, Num 7], [Null, Bool True, Str ''ops'']]
   \<and> map (objects (handleEncrypt failingWriterHost demoApp)) (rows demoData)
        = [[Str (hashHex (sha256 (utf8Encode ''john''))),
            Str (hashHex (sha256 (utf8Encode ''42''))), Num 7],
           [Null, Str (hashHex (sha256 (utf8Encode ''true''))), Str ''ops'']]"
  by (simp add: demo_failed_run) (simp add: demoApp_def demoData_def demoStore_def)

text \<open>
  Claim C10. The pass copies the outer array of rows only and writes each digest into the row
  array it reads. So the table the component holds refers to the same row arrays after the run as
  before, no other row array is touched, the store after the run is the one in which the pass
  ended (whether it completed or was rejected), the file of a completed run is generated from the
  original table read through that store, and the target cells of the original table then hold
  the written values.
\<close>

theorem handleEncrypt_writes_in_place:
  assumes "parsedData app = Some pd" and "fileObj app = Some f"
  shows "parsedData (handleEncrypt host app) = Some pd
     \<and> objects (handleEncrypt host app) = cells (passEnd (encryptionPass host pd app))
     \<and> (\<forall>a. a \<notin> set (rows pd) \<longrightarrow> objects (handleEncrypt host app) a = objects app a)
     \<and> (appState (handleEncrypt host app) = COMPLETE \<longrightarrow>
          (\<exists>blob. generateBlob host (objects (handleEncrypt host app)) pd f = Inr blob
             \<and> downloaded (handleEncrypt host app)
                  = downloaded app @ [(blob, generateDownloadFilename (fileName f) (today host))]))
     \<and> (appState (handleEncrypt host app) = COMPLETE
          \<and> distinct (rows pd) \<and> distinct (targetIndices (columnMappings app)) \<longrightarrow>
          (\<forall>a\<in>set (rows pd). \<forall>i\<in>set (targetIndices (columnMappings app)).
             cellAt (objects (handleEncrypt host app)) a i
               = encryptedValue host (cellAt (objects app) a i)))"
proof (intro conjI allI impI ballI)
  note obj = handleEncrypt_objects [OF assms, of host]
  show "parsedData (handleEncrypt host app) = Some pd"
    using assms(1) by (simp add: handleEncrypt_parsedData)
  show "objects (handleEncrypt host app) = cells (passEnd (encryptionPass host pd app))"
    by (rule obj)
  show "objects (handleEncrypt host app) a = objects app a" if "a \<notin> set (rows pd)" for a
  proof -
    from that have "a \<notin> fst ` set (List.product (rows pd) (columnMappings app))" by auto
    from runCells_end_frame(4) [OF refl this] show ?thesis
      unfolding obj encryptionPass_def by (simp add: runStart_cells)
  qed
  show "\<exists>blob. generateBlob host (objects (handleEncrypt host app)) pd f = Inr blob
             \<and> downloaded (handleEncrypt host app)
                  = downloaded app @ [(blob, generateDownloadFilename (fileName f) (today host))]"
    if c: "appState (handleEncrypt host app) = COMPLETE"
  proof -
    from assms c obtain s blob where pass: "encryptionPass host pd app = Inr s"
      and gen: "generateBlob host (cells s) pd f = Inr blob"
      by (rule handleEncrypt_complete)
    then show ?thesis by (simp add: handleEncrypt_success [OF assms pass gen])
  qed
  show "cellAt (objects (handleEncrypt host app)) a i = encryptedValue host (cellAt (objects app) a i)"
    if h: "appState (handleEncrypt host app) = COMPLETE
          \<and> distinct (rows pd) \<and> distinct (targetIndices (columnMappings app))"
      and a: "a \<in> set (rows pd)" and i: "i \<in> set (targetIndices (columnMappings app))" for a i
  proof -
    from h have c: "appState (handleEncrypt host app) = COMPLETE" by simp
    from assms c obtain s blob where pass: "encryptionPass host pd app = Inr s"
      and gen: "generateBlob host (cells s) pd f = Inr blob"
      by (rule handleEncrypt_complete)
    from h have d: "distinct (rows pd)" "distinct (targetIndices (columnMappings app))" by simp_all
    from encryptionPass_result(1) [OF pass d a i] show ?thesis
      by (simp add: handleEncrypt_success [OF assms pass gen])
  qed
qed


theorem handleEncrypt_writes_in_place_witness:
  "parsedData demoApp = Some demoData \<and> fileObj demoApp = Some demoFile
   \<and> appState (handleEncrypt demoHost demoApp) = COMPLETE
   \<and> distinct (rows demoData) \<and> distinct (targetIndices (columnMappings demoApp))
   \<and> parsedData (handleEncrypt demoHost demoApp) = Some demoData
   \<and> 7 \<notin> set (rows demoData)
   \<and> objects (handleEncrypt demoHost demoApp) 7 = objects demoApp 7
   \<and> cellAt (objects demoApp) 0 0 = Str ''  JOHN  ''
   \<and> cellAt (objects (handleEncrypt demoHost demoApp)) 0 0
        = encryptedValue demoHost (Str ''  JOHN  '')
   \<and> encryptedValue demoHost (Str ''  JOHN  '') = Str (hashHex (sha256 (utf8Encode ''john'')))"
proof -
  have c: "appState (handleEncrypt demoHost demoApp) = COMPLETE" by (simp add: demo_success_run)
  have d2: "distinct (targetIndices (columnMappings demoApp))" by (simp add: demo_distinct)
  have r: "0 \<in> set (rows demoData)" "0 \<in> set (targetIndices (columnMappings demoApp))"
    "7 \<notin> set (rows demoData)"
    by (simp_all add: demoData_def demo_distinct)
  note T = handleEncrypt_writes_in_place [OF demo_guard, of demoHost]
  from T have p: "parsedData (handleEncrypt demoHost demoApp) = Some demoData" by blast
  from T r(3) have o: "objects (handleEncrypt demoHost demoApp) 7 = objects demoApp 7" by blast
  from T c demo_distinct(1) d2 r(1,2)
  have "cellAt (objects (handleEncrypt demoHost demoApp)) 0 0
          = encryptedValue demoHost (cellAt (objects demoApp) 0 0)"
    by blast
  then have w: "cellAt (objects (handleEncrypt demoHost demoApp)) 0 0
          = encryptedValue demoHost (Str ''  JOHN  '')"
    using demo_cells(1) by simp
  have v: "encryptedValue demoHost (Str ''  JOHN  '') = Str (hashHex (sha256 (utf8Encode ''john'')))"
    by (simp add: encryptedValue_def isEmptyCell_def cellToString_def demoHost_def demo_hashes
          hashToCell_def)
  from p o w v c d2 r(3) demo_distinct(1) demo_guard demo_cells(1) show ?thesis by simp
qed

lemma encryptCell_host:
  assumes "subtleDigest h1 = subtleDigest h2"
  shows "encryptCell h1 t a m s = encryptCell h2 t a m s"
  unfolding encryptCell_def assms ..

lemma runCells_host:
  "subtleDigest h1 = subtleDigest h2 \<Longrightarrow> runCells h1 t L s = runCells h2 t L s"
proof (induction L arbitrary: s)
  case Nil
  show ?case by simp
next
  case (Cons p L)
  obtain a m where p: "p = (a, m)" by (cases p)
  show ?case
    unfolding p runCells.simps encryptCell_host [OF Cons.prems, of t a m s]
    using Cons.IH [OF Cons.prems] by (simp split: sum.splits)
qed

lemma encryptionPass_host:
  assumes "subtleDigest h1 = subtleDigest h2"
  shows "encryptionPass h1 pd app = encryptionPass h2 pd app"
  unfolding encryptionPass_def by (rule runCells_host [OF assms])

lemma generateBlob_host:
  assumes "xlsxWrite h1 = xlsxWrite h2" "papaUnparse h1 = papaUnparse h2"
  shows "generateBlob h1 st pd f = generateBlob h2 st pd f"
  unfolding generateBlob_def generateExcel_def generateCSV_def assms ..

text \<open>
  Claim C9. The pass is deterministic. The chunked loops are one pass over the pairs of a row and
  a mapping in row-major order: rows from first to last and, within a row, the mappings in their
  order, which for the mappings of \<^verbatim>\<open>findTargetColumns\<close> is the order of the columns. Two runs from
  the same state, on hosts whose digest and writers behave alike, whatever their clocks, end
  with the same rows, the same state and message, the same \<^verbatim>\<open>totalRows\<close> and \<^verbatim>\<open>encryptedCells\<close>, the
  same progress sequence and the same generated files.
\<close>

theorem handleEncrypt_deterministic:
  assumes "subtleDigest h1 = subtleDigest h2" and "xlsxWrite h1 = xlsxWrite h2"
    and "papaUnparse h1 = papaUnparse h2"
  shows "processRows h1 t rs ms 0 s = runCells h1 t (List.product rs ms) s
     \<and> map columnIndex (findTargetColumns hs) = [0..<length hs]
     \<and> objects (handleEncrypt h1 app) = objects (handleEncrypt h2 app)
     \<and> progressCalls (handleEncrypt h1 app) = progressCalls (handleEncrypt h2 app)
     \<and> appState (handleEncrypt h1 app) = appState (handleEncrypt h2 app)
     \<and> errorMessage (handleEncrypt h1 app) = errorMessage (handleEncrypt h2 app)
     \<and> totalRows (stats (handleEncrypt h1 app)) = totalRows (stats (handleEncrypt h2 app))
     \<and> encryptedCells (stats (handleEncrypt h1 app)) = encryptedCells (stats (handleEncrypt h2 app))
     \<and> map fst (downloaded (handleEncrypt h1 app)) = map fst (downloaded (handleEncrypt h2 app))"
proof -
  have order: "processRows h1 t rs ms 0 s = runCells h1 t (List.product rs ms) s"
    by (simp add: processRows_runCells)
  have same: "objects (handleEncrypt h1 app) = objects (handleEncrypt h2 app)
     \<and> progressCalls (handleEncrypt h1 app) = progressCalls (handleEncrypt h2 app)
     \<and> appState (handleEncrypt h1 app) = appState (handleEncrypt h2 app)
     \<and> errorMessage (handleEncrypt h1 app) = errorMessage (handleEncrypt h2 app)
     \<and> totalRows (stats (handleEncrypt h1 app)) = totalRows (stats (handleEncrypt h2 app))
     \<and> encryptedCells (stats (handleEncrypt h1 app)) = encryptedCells (stats (handleEncrypt h2 app))
     \<and> map fst (downloaded (handleEncrypt h1 app)) = map fst (downloaded (handleEncrypt h2 app))"
  proof (cases "parsedData app = None \<or> fileObj app = None")
    case True
    then show ?thesis by (simp add: handleEncrypt_no_data)
  next
    case False
    then obtain pd f where g: "parsedData app = Some pd" "fileObj app = Some f" by auto
    note pass = encryptionPass_host [OF assms(1), of pd app]
    note gen = generateBlob_host [OF assms(2,3)]
    from g show ?thesis
    proof (cases rule: handleEncrypt_outcomes [where host = h1])
      case (hash_failure e s)
      from hash_failure pass have "encryptionPass h2 pd app = Inl (e, s)" by simp
      then show ?thesis
        by (simp add: handleEncrypt_hash_failure [OF g hash_failure]
              handleEncrypt_hash_failure [OF g, of h2 e s])
    next
      case (generator_failure e s)
      from generator_failure pass gen have "encryptionPass h2 pd app = Inr s"
        "generateBlob h2 (cells s) pd f = Inl e" by simp_all
      then show ?thesis
        by (simp add: handleEncrypt_generator_failure [OF g generator_failure]
              handleEncrypt_generator_failure [OF g, of h2 s e])
    next
      case (success s blob)
      from success pass gen have "encryptionPass h2 pd app = Inr s"
        "generateBlob h2 (cells s) pd f = Inr blob" by simp_all
      then show ?thesis
        by (simp add: handleEncrypt_success [OF g success]
              handleEncrypt_success [OF g, of h2 s blob])
    qed
  qed
  from order same show ?thesis by (simp add: findTargetColumns_columnIndex)
qed

theorem handleEncrypt_deterministic_witness:
  "subtleDigest demoHost = subtleDigest laterHost \<and> xlsxWrite demoHost = xlsxWrite laterHost
   \<and> papaUnparse demoHost = papaUnparse laterHost
   \<and> startTime demoHost \<noteq> startTime laterHost \<and> today demoHost \<noteq> today laterHost
   \<and> progressCalls (handleEncrypt laterHost demoApp) = [0, 25, 50, 75, 100, 100]
   \<and> encryptedCells (stats (handleEncrypt laterHost demoApp)) = 3
   \<and> appState (handleEncrypt laterHost demoApp) = COMPLETE"
proof -
  have h: "subtleDigest demoHost = subtleDigest laterHost" "xlsxWrite demoHost = xlsxWrite laterHost"
    "papaUnparse demoHost = papaUnparse laterHost"
    "startTime demoHost \<noteq> startTime laterHost" "today demoHost \<noteq> today laterHost"
    by (simp_all add: laterHost_def demoHost_def)
  from handleEncrypt_deterministic [OF h(1-3), of 0 "[]" "[]" "runStart demoApp" "[]" demoApp]
  have "progressCalls (handleEncrypt laterHost demoApp) = progressCalls (handleEncrypt demoHost demoApp)"
    "encryptedCells (stats (handleEncrypt laterHost demoApp))
       = encryptedCells (stats (handleEncrypt demoHost demoApp))"
    "appState (handleEncrypt laterHost demoApp) = appState (handleEncrypt demoHost demoApp)"
    by simp_all
  with h show ?thesis by (simp add: demo_success_run)
qed

end
